theory Spec2Isabelle
  imports Complex_Main "HOL-Library.Product_Lexorder" "HOL-Library.Multiset"
begin

section \<open>Data model\<close>

text \<open>
  The road network is a networkx \<open>MultiDiGraph\<close>. Node identifiers are integers (OSM ids).
  Every node carries its coordinates (\<open>'y'\<close> the latitude, \<open>'x'\<close> the longitude, in
  degrees) and its successor dictionary: for each neighbour, the dictionary of parallel
  edges by key. The dictionaries are association lists read with \<open>map_of\<close>, in insertion
  order, which is the order in which \<open>G.neighbors\<close> iterates.

  Numbers are Python floats in the source. Coordinates and edge attributes are modelled
  as real numbers and the costs of edges are added exactly. The heuristic is computed with
  the floating-point operations of the record \<open>fmath\<close> below, which are parameters of the
  model.
\<close>

type_synonym node = int

datatype py_error = KeyError | IndexError | NetworkXError | ValueError

datatype highway_val = HwStr string | HwList "string list"

record edge_data =
  attrs :: "string \<rightharpoonup> real"
  highway :: "highway_val option"
  road_type :: "string option"

record node_entry =
  lat :: real
  lon :: real
  adj :: "(node \<times> (nat \<times> edge_data) list) list"

type_synonym graph = "(node \<times> node_entry) list"

text \<open>\<open>G.nodes[n]['y'], G.nodes[n]['x']\<close>: a missing node raises \<open>KeyError\<close>.\<close>

definition node_coords :: "graph \<Rightarrow> node \<Rightarrow> py_error + (real \<times> real)" where
  "node_coords G n =
     (case map_of G n of None \<Rightarrow> Inl KeyError | Some e \<Rightarrow> Inr (lat e, lon e))"

text \<open>\<open>G.neighbors(n)\<close>: a missing node raises \<open>NetworkXError\<close>.\<close>

definition neighbors :: "graph \<Rightarrow> node \<Rightarrow> py_error + node list" where
  "neighbors G n =
     (case map_of G n of None \<Rightarrow> Inl NetworkXError | Some e \<Rightarrow> Inr (map fst (adj e)))"

text \<open>\<open>G[u][v][0]\<close>: the edge stored under key 0; each missing level raises \<open>KeyError\<close>.\<close>

definition edge0 :: "graph \<Rightarrow> node \<Rightarrow> node \<Rightarrow> py_error + edge_data" where
  "edge0 G u v =
     (case map_of G u of None \<Rightarrow> Inl KeyError
      | Some e \<Rightarrow>
          (case map_of (adj e) v of None \<Rightarrow> Inl KeyError
           | Some es \<Rightarrow>
               (case map_of es 0 of None \<Rightarrow> Inl KeyError | Some ed \<Rightarrow> Inr ed)))"

text \<open>\<open>d.get(k, default)\<close>.\<close>

definition dict_get :: "('k \<rightharpoonup> 'v) \<Rightarrow> 'k \<Rightarrow> 'v \<Rightarrow> 'v" where
  "dict_get d k dflt = (case d k of None \<Rightarrow> dflt | Some v \<Rightarrow> v)"

section \<open>Heuristic\<close>

definition radians :: "real \<Rightarrow> real" where
  "radians d = d * pi / 180"

text \<open>\<open>math.atan2(y, x)\<close>.\<close>

definition atan2 :: "real \<Rightarrow> real \<Rightarrow> real" where
  "atan2 y x =
     (if 0 < x then arctan (y / x)
      else if x < 0 \<and> 0 \<le> y then arctan (y / x) + pi
      else if x < 0 then arctan (y / x) - pi
      else if 0 < y then pi / 2
      else if y < 0 then - (pi / 2)
      else 0)"

text \<open>
  The floating-point arithmetic of the heuristic. \<open>rnd\<close> rounds the exact result of an
  arithmetic operation, of a decimal literal or of a square root to a float; \<open>f_sin\<close>,
  \<open>f_cos\<close>, \<open>f_atan2\<close>, \<open>f_radians\<close> and \<open>f_pow\<close> are \<open>math.sin\<close>, \<open>math.cos\<close>, \<open>math.atan2\<close>,
  \<open>math.radians\<close> and \<open>**\<close> as the platform computes them. Nothing is assumed of them:
  what is proved of the search holds whatever they return. Infinities and NaN are not
  modelled.
\<close>

record fmath =
  rnd :: "real \<Rightarrow> real"
  f_sin :: "real \<Rightarrow> real"
  f_cos :: "real \<Rightarrow> real"
  f_atan2 :: "real \<Rightarrow> real \<Rightarrow> real"
  f_radians :: "real \<Rightarrow> real"
  f_pow :: "real \<Rightarrow> nat \<Rightarrow> real"

text \<open>Arithmetic without rounding: the operations on the real numbers.\<close>

definition exact_math :: fmath where
  "exact_math =
     \<lparr>rnd = (\<lambda>x. x), f_sin = sin, f_cos = cos, f_atan2 = atan2, f_radians = radians,
      f_pow = (\<lambda>x n. x ^ n)\<rparr>"

text \<open>\<open>math.sqrt(x)\<close>: a negative argument raises \<open>ValueError\<close>.\<close>

definition py_sqrt :: "fmath \<Rightarrow> real \<Rightarrow> py_error + real" where
  "py_sqrt fm x = (if x < 0 then Inl ValueError else Inr (rnd fm (sqrt x)))"

definition haversine_distance ::
  "fmath \<Rightarrow> real \<Rightarrow> real \<Rightarrow> real \<Rightarrow> real \<Rightarrow> py_error + real" where
  "haversine_distance fm lat1 lon1 lat2 lon2 =
     (let R = 6371000;
          phi1 = f_radians fm lat1;
          phi2 = f_radians fm lat2;
          dphi = f_radians fm (rnd fm (lat2 - lat1));
          dlambda = f_radians fm (rnd fm (lon2 - lon1));
          a = rnd fm (f_pow fm (f_sin fm (rnd fm (dphi / 2))) 2
                      + rnd fm (rnd fm (f_cos fm phi1 * f_cos fm phi2)
                                * f_pow fm (f_sin fm (rnd fm (dlambda / 2))) 2))
      in case py_sqrt fm a of
           Inl err \<Rightarrow> Inl err
         | Inr sa \<Rightarrow>
             (case py_sqrt fm (rnd fm (1 - a)) of
                Inl err \<Rightarrow> Inl err
              | Inr sb \<Rightarrow> Inr (rnd fm (2 * R * f_atan2 fm sa sb))))"

text \<open>\<open>MAX_SPEED_MPS = 80 / 3.6\<close>.\<close>

definition MAX_SPEED_MPS :: "fmath \<Rightarrow> real" where
  "MAX_SPEED_MPS fm = rnd fm (80 / rnd fm 3.6)"

text \<open>
  The heuristic of a neighbour, as \<open>astar_pathfinding\<close> computes it inline: the
  haversine distance to the goal, scaled by the weight criterion.
\<close>

definition h_score ::
  "fmath \<Rightarrow> graph \<Rightarrow> string \<Rightarrow> real \<times> real \<Rightarrow> node \<Rightarrow> py_error + real" where
  "h_score fm G weight end_coords neighbor =
     (case node_coords G neighbor of
        Inl err \<Rightarrow> Inl err
      | Inr nc \<Rightarrow>
          (case haversine_distance fm (fst nc) (snd nc) (fst end_coords) (snd end_coords) of
             Inl err \<Rightarrow> Inl err
           | Inr h_dist \<Rightarrow>
               Inr (if weight = ''time'' then rnd fm (h_dist / MAX_SPEED_MPS fm)
                    else if weight = ''pollution'' then h_dist
                    else h_dist)))"

section \<open>The frontier\<close>

text \<open>
  The frontier is a \<open>heapq\<close> heap of tuples \<open>(f_score, g_score, node)\<close>, compared as Python
  compares tuples: lexicographically. \<open>heappop\<close> removes a least entry. The order on
  the entries is total and equal entries are the same tuple, so what the search
  observes of the heap is the bag of its entries; the model keeps them in a list.
\<close>

type_synonym entry = "real \<times> real \<times> node"

definition heappush :: "entry list \<Rightarrow> entry \<Rightarrow> entry list" where
  "heappush h e = h @ [e]"

fun heap_min :: "entry \<Rightarrow> entry list \<Rightarrow> entry" where
  "heap_min m [] = m"
| "heap_min m (x # xs) = heap_min (if x < m then x else m) xs"

definition heappop :: "entry list \<Rightarrow> py_error + (entry \<times> entry list)" where
  "heappop h =
     (case h of [] \<Rightarrow> Inl IndexError
      | x # xs \<Rightarrow> (let m = heap_min x xs in Inr (m, remove1 m h)))"

section \<open>The search\<close>

record search_state =
  open_set :: "entry list"
  came_from :: "node \<rightharpoonup> node"
  g_scores :: "node \<rightharpoonup> real"
  explored_nodes :: "node list"
  explored_edges :: "(node \<times> node) list"
  closed_set :: "node set"

datatype cost = Finite real | Infinity

type_synonym search_result = "node list option \<times> cost \<times> node list \<times> (node \<times> node) list"

text \<open>\<open>edge_data.get(weight, edge_data.get('length', 100))\<close>.\<close>

definition edge_cost :: "edge_data \<Rightarrow> string \<Rightarrow> real" where
  "edge_cost ed weight = dict_get (attrs ed) weight (dict_get (attrs ed) ''length'' 100)"

text \<open>The body of the loop over the neighbours of \<open>current\<close>, for one neighbour.\<close>

definition relax ::
  "fmath \<Rightarrow> graph \<Rightarrow> string \<Rightarrow> real \<times> real \<Rightarrow> node \<Rightarrow> real \<Rightarrow> search_state \<Rightarrow> node
     \<Rightarrow> py_error + search_state" where
  "relax fm G weight end_coords current current_g st neighbor =
     (if neighbor \<in> closed_set st then Inr st
      else
        (case edge0 G current neighbor of
           Inl err \<Rightarrow> Inl err
         | Inr ed \<Rightarrow>
             (let tentative_g = current_g + edge_cost ed weight in
              if (case g_scores st neighbor of None \<Rightarrow> True | Some g \<Rightarrow> tentative_g < g)
              then
                (case h_score fm G weight end_coords neighbor of
                   Inl err \<Rightarrow> Inl err
                 | Inr h \<Rightarrow>
                     Inr (st\<lparr>came_from := (came_from st)(neighbor \<mapsto> current),
                              g_scores := (g_scores st)(neighbor \<mapsto> tentative_g),
                              explored_edges := explored_edges st @ [(current, neighbor)],
                              open_set :=
                                heappush (open_set st) (tentative_g + h, tentative_g, neighbor)\<rparr>))
              else Inr st)))"

fun relax_all ::
  "fmath \<Rightarrow> graph \<Rightarrow> string \<Rightarrow> real \<times> real \<Rightarrow> node \<Rightarrow> real \<Rightarrow> search_state \<Rightarrow> node list
     \<Rightarrow> py_error + search_state" where
  "relax_all fm G weight end_coords current current_g st [] = Inr st"
| "relax_all fm G weight end_coords current current_g st (n # ns) =
     (case relax fm G weight end_coords current current_g st n of
        Inl err \<Rightarrow> Inl err
      | Inr st' \<Rightarrow> relax_all fm G weight end_coords current current_g st' ns)"

text \<open>
  Path reconstruction: \<open>while curr in came_from: path.append(curr); curr = came_from[curr]\<close>.
  The loop runs forever on a cyclic \<open>came_from\<close>; not returning is the value \<open>None\<close>.
\<close>

partial_function (option) reconstruct ::
  "(node \<rightharpoonup> node) \<Rightarrow> node \<Rightarrow> node list \<Rightarrow> node list option" where
  "reconstruct cf curr_node path =
     (case cf curr_node of
        None \<Rightarrow> Some path
      | Some p \<Rightarrow> reconstruct cf p (path @ [curr_node]))"

text \<open>The nodes that can ever enter the frontier: those listed as a neighbour.\<close>

definition succ_nodes :: "graph \<Rightarrow> node set" where
  "succ_nodes G = (\<Union>e \<in> snd ` set G. fst ` set (adj e))"

definition frontier_nodes :: "entry list \<Rightarrow> node set" where
  "frontier_nodes h = (\<lambda>e. snd (snd e)) ` set h"

definition pending :: "graph \<Rightarrow> search_state \<Rightarrow> node set" where
  "pending G st = (succ_nodes G \<union> frontier_nodes (open_set st)) - closed_set st"

text \<open>
  The main loop. The result is \<open>None\<close> when the call does not return, \<open>Some (Inl err)\<close>
  when it raises, \<open>Some (Inr r)\<close> when it returns the tuple \<open>r\<close>.
\<close>

function astar_loop ::
  "fmath \<Rightarrow> graph \<Rightarrow> string \<Rightarrow> node \<Rightarrow> node \<Rightarrow> real \<times> real \<Rightarrow> search_state
     \<Rightarrow> (py_error + search_result) option" where
  "astar_loop fm G weight start_node end_node end_coords st =
     (if open_set st = [] then
        Some (Inr (None, Infinity, explored_nodes st, explored_edges st))
      else
        (case heappop (open_set st) of
           Inl err \<Rightarrow> Some (Inl err)
         | Inr popped \<Rightarrow>
             (let current_g = fst (snd (fst popped));
                  current = snd (snd (fst popped));
                  st1 = st\<lparr>open_set := snd popped\<rparr>
              in
              if current \<in> closed_set st1 then
                astar_loop fm G weight start_node end_node end_coords st1
              else
                (let st2 = st1\<lparr>explored_nodes := explored_nodes st1 @ [current]\<rparr> in
                 if current = end_node then
                   (case reconstruct (came_from st2) end_node [] of
                      None \<Rightarrow> None
                    | Some path \<Rightarrow>
                        Some (Inr (Some (rev (path @ [start_node])), Finite current_g,
                                   explored_nodes st2, explored_edges st2)))
                 else
                   (let st3 = st2\<lparr>closed_set := insert current (closed_set st2)\<rparr> in
                    case neighbors G current of
                      Inl err \<Rightarrow> Some (Inl err)
                    | Inr ns \<Rightarrow>
                        (case relax_all fm G weight end_coords current current_g st3 ns of
                           Inl err \<Rightarrow> Some (Inl err)
                         | Inr st4 \<Rightarrow>
                             astar_loop fm G weight start_node end_node end_coords st4))))))"
  by pat_completeness auto

definition init_state :: "node \<Rightarrow> search_state" where
  "init_state start_node =
     \<lparr>open_set = [(0, 0, start_node)], came_from = Map.empty,
      g_scores = [start_node \<mapsto> 0], explored_nodes = [], explored_edges = [],
      closed_set = {}\<rparr>"

definition astar_pathfinding ::
  "fmath \<Rightarrow> graph \<Rightarrow> node \<Rightarrow> node \<Rightarrow> string \<Rightarrow> (py_error + search_result) option" where
  "astar_pathfinding fm G start_node end_node weight =
     (case node_coords G end_node of
        Inl err \<Rightarrow> Some (Inl err)
      | Inr end_coords \<Rightarrow>
          astar_loop fm G weight start_node end_node end_coords (init_state start_node))"

section \<open>Route statistics\<close>

record route_stats =
  name :: string
  distance_km :: real
  time_minutes :: real
  pollution_score :: real
  num_segments :: int
  road_types :: "string \<rightharpoonup> nat"

text \<open>
  The loop \<open>for i in range(len(path) - 1)\<close> over the consecutive pairs of the path, with
  the four accumulators \<open>total_distance\<close>, \<open>total_time\<close>, \<open>total_pollution\<close>, \<open>road_types\<close>.
\<close>

fun stats_loop ::
  "graph \<Rightarrow> node list \<Rightarrow> real \<times> real \<times> real \<times> (string \<rightharpoonup> nat)
     \<Rightarrow> py_error + (real \<times> real \<times> real \<times> (string \<rightharpoonup> nat))" where
  "stats_loop G (u # v # rest) (total_distance, total_time, total_pollution, rts) =
     (case edge0 G u v of
        Inl err \<Rightarrow> Inl err
      | Inr ed \<Rightarrow>
          (let distance = dict_get (attrs ed) ''length'' 0;
               time = dict_get (attrs ed) ''time'' 0;
               pollution = dict_get (attrs ed) ''pollution'' 0;
               rt = (case road_type ed of None \<Rightarrow> ''unknown'' | Some r \<Rightarrow> r)
           in stats_loop G (v # rest)
                (total_distance + distance, total_time + time, total_pollution + pollution,
                 rts(rt \<mapsto> dict_get rts rt 0 + 1))))"
| "stats_loop G path acc = Inr acc"

definition calculate_route_stats :: "graph \<Rightarrow> node list \<Rightarrow> string \<Rightarrow> py_error + route_stats" where
  "calculate_route_stats G path route_name =
     (case stats_loop G path (0, 0, 0, Map.empty) of
        Inl err \<Rightarrow> Inl err
      | Inr acc \<Rightarrow>
          Inr \<lparr>name = route_name,
               distance_km = fst acc / 1000,
               time_minutes = fst (snd acc) / 60,
               pollution_score = fst (snd (snd acc)),
               num_segments = int (length path) - 1,
               road_types = snd (snd (snd acc))\<rparr>)"

section \<open>Parallel edges and missing attributes\<close>

text \<open>\<open>map_adj f G\<close> rewrites, with \<open>f\<close>, the dictionary of parallel edges of every node pair.\<close>

definition map_adj ::
  "((nat \<times> edge_data) list \<Rightarrow> (nat \<times> edge_data) list) \<Rightarrow> graph \<Rightarrow> graph" where
  "map_adj f G =
     map (\<lambda>ne. (fst ne,
                 (snd ne)\<lparr>adj := map (\<lambda>ves. (fst ves, f (snd ves))) (adj (snd ne))\<rparr>)) G"

text \<open>
  The search reads \<open>G[current][neighbor][0]\<close> and nothing else of the parallel edges.
  \<open>key0_only G\<close> is \<open>G\<close> after \<open>G.remove_edge(u, v, key)\<close> for every edge whose key is not 0:
  networkx deletes the edge from the dictionary of parallel edges, and deletes the
  neighbour from the adjacency when that dictionary becomes empty.
\<close>

definition key0_only :: "graph \<Rightarrow> graph" where
  "key0_only G =
     map (\<lambda>ne. (fst ne,
                 (snd ne)\<lparr>adj := filter (\<lambda>ves. snd ves \<noteq> [])
                                  (map (\<lambda>ves. (fst ves, filter (\<lambda>ked. fst ked = 0) (snd ves)))
                                     (adj (snd ne)))\<rparr>)) G"

text \<open>Every pair of nodes joined by an edge is joined by an edge stored under key 0.\<close>

definition key0_present :: "graph \<Rightarrow> bool" where
  "key0_present G \<longleftrightarrow>
     list_all (\<lambda>ne. list_all (\<lambda>ves. 0 \<in> fst ` set (snd ves)) (adj (snd ne))) G"

text \<open>
  \<open>map_other_keys f G\<close> is \<open>G\<close> where the attributes of every edge stored under a key other
  than 0 are replaced by \<open>f\<close> of them.
\<close>

definition map_other_keys :: "(edge_data \<Rightarrow> edge_data) \<Rightarrow> graph \<Rightarrow> graph" where
  "map_other_keys f G =
     map_adj (map (\<lambda>ked. if fst ked = 0 then ked else (fst ked, f (snd ked)))) G"

text \<open>
  The policy of the specification for parallel edges, in its words: the minimum cost,
  under the active weight criterion, over all the edges between two nodes.
\<close>

definition spec_min_cost_edge :: "graph \<Rightarrow> node \<Rightarrow> node \<Rightarrow> string \<Rightarrow> real option" where
  "spec_min_cost_edge G u v weight =
     (case map_of G u of
        None \<Rightarrow> None
      | Some e \<Rightarrow>
          (case map_of (adj e) v of
             None \<Rightarrow> None
           | Some es \<Rightarrow>
               (case map (\<lambda>ked. edge_cost (snd ked) weight) es of
                  [] \<Rightarrow> None
                | c # cs \<Rightarrow> Some (fold min cs c))))"

text \<open>
  \<open>with_default_cost weight G\<close> is \<open>G\<close> where every edge that lacks the attribute
  \<open>weight\<close> is given it, with the value of its \<open>length\<close> attribute, or 100 without one.
\<close>

definition fill_cost :: "string \<Rightarrow> edge_data \<Rightarrow> edge_data" where
  "fill_cost weight ed =
     (if attrs ed weight = None
      then ed\<lparr>attrs := (attrs ed)(weight \<mapsto> dict_get (attrs ed) ''length'' 100)\<rparr>
      else ed)"

definition with_default_cost :: "string \<Rightarrow> graph \<Rightarrow> graph" where
  "with_default_cost weight G =
     map_adj (map (\<lambda>ked. (fst ked, fill_cost weight (snd ked)))) G"

section \<open>The weighting scheme\<close>

definition POLLUTION_FACTORS :: "(string \<times> real) list" where
  "POLLUTION_FACTORS =
     [(''living_street'', 3.0), (''busway'', 20.0),
      (''residential'', 2.5), (''unclassified'', 2.2),
      (''primary'', 1.6), (''primary_link'', 1.7),
      (''secondary'', 1.8), (''secondary_link'', 1.9),
      (''tertiary'', 2.0), (''tertiary_link'', 2.1),
      (''motorway'', 1.0), (''motorway_link'', 1.5),
      (''trunk'', 1.2), (''trunk_link'', 1.5),
      (''default'', 1.8)]"

definition speed_limits_kmh :: "(string \<times> real) list" where
  "speed_limits_kmh =
     [(''living_street'', 10), (''busway'', 1),
      (''residential'', 20), (''unclassified'', 20),
      (''primary'', 40), (''primary_link'', 20),
      (''secondary'', 30), (''secondary_link'', 20),
      (''tertiary'', 25), (''tertiary_link'', 15),
      (''motorway'', 80), (''motorway_link'', 40),
      (''trunk'', 60), (''trunk_link'', 30),
      (''default'', 30)]"

text \<open>\<open>POLLUTION_FACTORS.get(highway, POLLUTION_FACTORS['default'])\<close>.\<close>

definition pollution_multiplier :: "string \<Rightarrow> real" where
  "pollution_multiplier hw = dict_get (map_of POLLUTION_FACTORS) hw 1.8"

text \<open>\<open>speed_limits_kmh.get(highway, speed_limits_kmh['default'])\<close>.\<close>

definition road_speed :: "string \<Rightarrow> real" where
  "road_speed hw = dict_get (map_of speed_limits_kmh) hw 30"

text \<open>Time in seconds = (distance in km) / (speed in km/h) * 3600.\<close>

definition time_seconds :: "real \<Rightarrow> string \<Rightarrow> real" where
  "time_seconds len hw = (len / 1000) / road_speed hw * 3600"

text \<open>
  \<open>highway = data.get('highway', 'default')\<close>, and the first element when it is a list
  (an empty list raises \<open>IndexError\<close>).
\<close>

definition highway_of :: "edge_data \<Rightarrow> py_error + string" where
  "highway_of ed =
     (case highway ed of
        None \<Rightarrow> Inr ''default''
      | Some (HwStr s) \<Rightarrow> Inr s
      | Some (HwList []) \<Rightarrow> Inl IndexError
      | Some (HwList (s # rest)) \<Rightarrow> Inr s)"

text \<open>\<open>G.degree(n)\<close> of a multigraph: the edges out of \<open>n\<close> plus the edges into it.\<close>

definition degree :: "graph \<Rightarrow> node \<Rightarrow> nat" where
  "degree G n =
     (case map_of G n of None \<Rightarrow> 0 | Some e \<Rightarrow> sum_list (map (\<lambda>ves. length (snd ves)) (adj e)))
     + sum_list (map (\<lambda>ne. case map_of (adj (snd ne)) n of None \<Rightarrow> 0 | Some es \<Rightarrow> length es) G)"

definition intersection_penalty :: "graph \<Rightarrow> node \<Rightarrow> node \<Rightarrow> real" where
  "intersection_penalty G u v = (if 2 < degree G u \<or> 2 < degree G v then 1.1 else 1.0)"

text \<open>The body of the loop of \<open>add_pollution_weights\<close>, for the edge \<open>(u, v, key, data)\<close>.\<close>

definition weigh_edge :: "graph \<Rightarrow> node \<Rightarrow> node \<Rightarrow> edge_data \<Rightarrow> py_error + edge_data" where
  "weigh_edge G u v ed =
     (case highway_of ed of
        Inl err \<Rightarrow> Inl err
      | Inr hw \<Rightarrow>
          (let len = dict_get (attrs ed) ''length'' 100;
               pollution_score = len * pollution_multiplier hw * intersection_penalty G u v
           in Inr (ed\<lparr>attrs := (attrs ed)
                        (''pollution'' \<mapsto> pollution_score,
                         ''pollution_multiplier'' \<mapsto> pollution_multiplier hw,
                         ''time'' \<mapsto> time_seconds len hw),
                      road_type := Some hw\<rparr>)))"

fun map_err :: "('a \<Rightarrow> py_error + 'b) \<Rightarrow> 'a list \<Rightarrow> py_error + 'b list" where
  "map_err f [] = Inr []"
| "map_err f (x # xs) =
     (case f x of
        Inl err \<Rightarrow> Inl err
      | Inr y \<Rightarrow> (case map_err f xs of Inl err \<Rightarrow> Inl err | Inr ys \<Rightarrow> Inr (y # ys)))"

definition add_pollution_weights :: "graph \<Rightarrow> py_error + graph" where
  "add_pollution_weights G =
     map_err (\<lambda>ne.
        map_sum id (\<lambda>a. (fst ne, (snd ne)\<lparr>adj := a\<rparr>))
          (map_err (\<lambda>ves.
             map_sum id (\<lambda>es. (fst ves, es))
               (map_err (\<lambda>ked. map_sum id (\<lambda>ed. (fst ked, ed))
                                  (weigh_edge G (fst ne) (fst ves) (snd ked)))
                  (snd ves)))
             (adj (snd ne)))) G"

section \<open>The dual-route orchestrator\<close>

text \<open>\<open>[[G.nodes[node]['y'], G.nodes[node]['x']] for node in path]\<close>.\<close>

definition path_to_coords :: "graph \<Rightarrow> node list \<Rightarrow> py_error + (real \<times> real) list" where
  "path_to_coords G path = map_err (node_coords G) path"

definition edges_to_coords ::
  "graph \<Rightarrow> (node \<times> node) list \<Rightarrow> py_error + ((real \<times> real) \<times> (real \<times> real)) list" where
  "edges_to_coords G es =
     map_err (\<lambda>uv. case node_coords G (fst uv) of
                      Inl err \<Rightarrow> Inl err
                    | Inr cu \<Rightarrow> map_sum id (\<lambda>cv. (cu, cv)) (node_coords G (snd uv))) es"

record route_payload =
  payload_path :: "(real \<times> real) list"
  payload_stats :: route_stats
  payload_explored :: "(real \<times> real) list"
  payload_explored_edges :: "((real \<times> real) \<times> (real \<times> real)) list"

text \<open>
  The three answers of \<open>/get_route\<close>: 400 \<open>Invalid coordinates\<close>, 404 \<open>No route found\<close>,
  and the response with both routes.
\<close>

datatype response =
    Invalid_coordinates
  | No_route_found
  | Routes route_payload route_payload

text \<open>Python's \<open>not route\<close> for a route that is \<open>None\<close> or a list.\<close>

definition falsy :: "node list option \<Rightarrow> bool" where
  "falsy route \<longleftrightarrow> route = None \<or> route = Some []"

definition build_payload ::
  "graph \<Rightarrow> node list \<Rightarrow> route_stats \<Rightarrow> node list \<Rightarrow> (node \<times> node) list
     \<Rightarrow> py_error + route_payload" where
  "build_payload G route stats explored edges =
     (case path_to_coords G route of
        Inl err \<Rightarrow> Inl err
      | Inr pc \<Rightarrow>
          (case path_to_coords G explored of
             Inl err \<Rightarrow> Inl err
           | Inr xc \<Rightarrow>
               (case edges_to_coords G edges of
                  Inl err \<Rightarrow> Inl err
                | Inr ec \<Rightarrow>
                    Inr \<lparr>payload_path = pc, payload_stats = stats, payload_explored = xc,
                         payload_explored_edges = ec\<rparr>)))"

text \<open>
  \<open>get_route\<close>. The four query parameters arrive parsed: \<open>None\<close> stands for a parameter on
  which \<open>float\<close> raises. \<open>nearest_nodes\<close> is osmnx's lookup, a parameter of the model.
\<close>

definition get_route ::
  "fmath \<Rightarrow> (graph \<Rightarrow> real \<Rightarrow> real \<Rightarrow> node) \<Rightarrow> graph
     \<Rightarrow> real option \<Rightarrow> real option \<Rightarrow> real option \<Rightarrow> real option
     \<Rightarrow> (py_error + response) option" where
  "get_route fm nearest_nodes G start_lat start_lon end_lat end_lon =
     (if start_lat = None \<or> start_lon = None \<or> end_lat = None \<or> end_lon = None
      then Some (Inr Invalid_coordinates)
      else
        (let start_node = nearest_nodes G (the start_lon) (the start_lat);
             end_node = nearest_nodes G (the end_lon) (the end_lat)
         in case astar_pathfinding fm G start_node end_node ''time'' of
              None \<Rightarrow> None
            | Some (Inl err) \<Rightarrow> Some (Inl err)
            | Some (Inr time_result) \<Rightarrow>
                (case astar_pathfinding fm G start_node end_node ''pollution'' of
                   None \<Rightarrow> None
                 | Some (Inl err) \<Rightarrow> Some (Inl err)
                 | Some (Inr poll_result) \<Rightarrow>
                     (let time_route = fst time_result;
                          poll_route = fst poll_result
                      in if falsy time_route \<or> falsy poll_route
                         then Some (Inr No_route_found)
                         else
                           (case calculate_route_stats G (the time_route) ''Fastest Route'' of
                              Inl err \<Rightarrow> Some (Inl err)
                            | Inr time_stats \<Rightarrow>
                                (case calculate_route_stats G (the poll_route)
                                        ''Greenest Route'' of
                                   Inl err \<Rightarrow> Some (Inl err)
                                 | Inr poll_stats \<Rightarrow>
                                     (case build_payload G (the time_route) time_stats
                                             (fst (snd (snd time_result)))
                                             (snd (snd (snd time_result))) of
                                        Inl err \<Rightarrow> Some (Inl err)
                                      | Inr tp \<Rightarrow>
                                          (case build_payload G (the poll_route) poll_stats
                                                  (fst (snd (snd poll_result)))
                                                  (snd (snd (snd poll_result))) of
                                             Inl err \<Rightarrow> Some (Inl err)
                                           | Inr pp \<Rightarrow> Some (Inr (Routes tp pp))))))))))"

section \<open>Example networks\<close>

text \<open>
  The four-node line A-B-C-D of the specification's concrete scenario, with
  \<open>time\<close> 10, 5, 20 and \<open>pollution\<close> 5, 15, 5 on its three edges.
\<close>

definition mk_edge :: "real \<Rightarrow> real \<Rightarrow> real \<Rightarrow> edge_data" where
  "mk_edge l t p =
     \<lparr>attrs = [''length'' \<mapsto> l, ''time'' \<mapsto> t, ''pollution'' \<mapsto> p],
      highway = Some (HwStr ''residential''), road_type = Some ''residential''\<rparr>"

definition line_graph :: graph where
  "line_graph =
     [(1, \<lparr>lat = 0, lon = 0, adj = [(2, [(0, mk_edge 200 10 5)])]\<rparr>),
      (2, \<lparr>lat = 0, lon = 0, adj = [(3, [(0, mk_edge 200 5 15)])]\<rparr>),
      (3, \<lparr>lat = 0, lon = 0, adj = [(4, [(0, mk_edge 200 20 5)])]\<rparr>),
      (4, \<lparr>lat = 0, lon = 0, adj = []\<rparr>)]"

section \<open>Invariant of the search loop\<close>

text \<open>
  \<open>tree_path cf s n path\<close>: following the predecessor links \<open>cf\<close> from \<open>n\<close> leads to \<open>s\<close>,
  and \<open>path\<close> lists the nodes met, from \<open>s\<close> to \<open>n\<close>.
\<close>

inductive tree_path :: "(node \<rightharpoonup> node) \<Rightarrow> node \<Rightarrow> node \<Rightarrow> node list \<Rightarrow> bool"
  for cf :: "node \<rightharpoonup> node" and s :: node where
  root: "cf s = None \<Longrightarrow> tree_path cf s s [s]"
| step: "cf n = Some p \<Longrightarrow> tree_path cf s p path \<Longrightarrow> tree_path cf s n (path @ [n])"

text \<open>
  What every state of the main loop satisfies: the trace lists the closed nodes once each;
  the start node is closed as soon as the first entry is popped; every predecessor is a
  closed node whose recorded cost plus the cost of the key-0 edge is the recorded cost of
  its successor; every discovered node has a predecessor chain back to the start; every
  frontier entry of an open node is no better than the recorded cost of the node and has
  \<open>f = g + h\<close>; and the recorded cost of an open node is in the frontier.
\<close>

definition search_inv ::
  "fmath \<Rightarrow> graph \<Rightarrow> string \<Rightarrow> node \<Rightarrow> real \<times> real \<Rightarrow> search_state \<Rightarrow> bool" where
  "search_inv fm G w s ec st \<longleftrightarrow>
     (distinct (explored_nodes st) \<and> set (explored_nodes st) = closed_set st)
   \<and> (s \<in> closed_set st \<or> open_set st = [(0, 0, s)])
   \<and> (g_scores st s = Some 0 \<and> came_from st s = None)
   \<and> (\<forall>n p. came_from st n = Some p \<longrightarrow>
          p \<in> closed_set st \<and>
          (\<exists>ed gp. edge0 G p n = Inr ed \<and> g_scores st p = Some gp \<and>
                   g_scores st n = Some (gp + edge_cost ed w)))
   \<and> (\<forall>n g. g_scores st n = Some g \<longrightarrow> (\<exists>path. tree_path (came_from st) s n path))
   \<and> (\<forall>f g n. (f, g, n) \<in> set (open_set st) \<longrightarrow> n \<notin> closed_set st \<longrightarrow>
          (\<exists>gs. g_scores st n = Some gs \<and> gs \<le> g) \<and>
          (n \<noteq> s \<longrightarrow> (\<exists>h. h_score fm G w ec n = Inr h \<and> f = g + h)))
   \<and> (\<forall>n gs. g_scores st n = Some gs \<longrightarrow> n \<notin> closed_set st \<longrightarrow>
          (\<exists>f. (f, gs, n) \<in> set (open_set st)))"

section \<open>Recomputing the cost of a route\<close>

text \<open>
  The sum of one edge attribute over the consecutive pairs of a path, each pair resolved
  to its key-0 edge: the loop of \<open>calculate_route_stats\<close>, for any attribute name.
\<close>

fun attr_total :: "graph \<Rightarrow> string \<Rightarrow> node list \<Rightarrow> real \<Rightarrow> py_error + real" where
  "attr_total G a (u # v # rest) tot =
     (case edge0 G u v of
        Inl err \<Rightarrow> Inl err
      | Inr ed \<Rightarrow> attr_total G a (v # rest) (tot + dict_get (attrs ed) a 0))"
| "attr_total G a path tot = Inr tot"

definition path_attribute_sum :: "graph \<Rightarrow> string \<Rightarrow> node list \<Rightarrow> py_error + real" where
  "path_attribute_sum G a path = attr_total G a path 0"

text \<open>
  A diamond with a detour: 1 to 2 directly (time 10), or through 3 (time 3 then 2);
  2 to 4 (time 1); node 5 has no edge. Node 2 enters the frontier twice, so the search
  pops a stale entry.
\<close>

definition diamond_graph :: graph where
  "diamond_graph =
     [(1, \<lparr>lat = 0, lon = 0,
           adj = [(2, [(0, mk_edge 1000 10 20)]), (3, [(0, mk_edge 300 3 6)])]\<rparr>),
      (2, \<lparr>lat = 0, lon = 0, adj = [(4, [(0, mk_edge 100 1 2)])]\<rparr>),
      (3, \<lparr>lat = 0, lon = 0, adj = [(2, [(0, mk_edge 200 2 4)])]\<rparr>),
      (4, \<lparr>lat = 0, lon = 0, adj = []\<rparr>),
      (5, \<lparr>lat = 0, lon = 0, adj = []\<rparr>)]"

section \<open>Reachability and well-formed networks\<close>

text \<open>\<open>reachable G s v\<close>: there is a directed path from \<open>s\<close> to \<open>v\<close> along \<open>G.neighbors\<close>.\<close>

inductive reachable :: "graph \<Rightarrow> node \<Rightarrow> node \<Rightarrow> bool" for G :: graph and s :: node where
  start: "reachable G s s"
| edge: "reachable G s u \<Longrightarrow> neighbors G u = Inr ns \<Longrightarrow> v \<in> set ns \<Longrightarrow> reachable G s v"

text \<open>
  The shape of network in which the search finds every node and every edge it reads:
  every neighbour listed in an adjacency is a node of the graph (networkx keeps this), and
  every listed neighbour has an edge under key 0 (the search reads no other).
\<close>

definition well_formed :: "graph \<Rightarrow> bool" where
  "well_formed G \<longleftrightarrow>
     list_all (\<lambda>ne. list_all (\<lambda>ves. fst ves \<in> fst ` set G \<and> 0 \<in> fst ` set (snd ves))
                       (adj (snd ne))) G"

text \<open>
  The haversine distance from every node of the graph to the goal is computed without an
  exception: neither square root gets a negative argument.
\<close>

definition haversine_defined :: "fmath \<Rightarrow> graph \<Rightarrow> node \<Rightarrow> bool" where
  "haversine_defined fm G end_node \<longleftrightarrow>
     (case node_coords G end_node of
        Inl err \<Rightarrow> False
      | Inr ec \<Rightarrow>
          list_all (\<lambda>ne. case haversine_distance fm (lat (snd ne)) (lon (snd ne)) (fst ec) (snd ec) of
                           Inl err \<Rightarrow> False
                         | Inr d \<Rightarrow> True) G)"

text \<open>Three nodes and one edge, from 1 to 2, stored under key 1; node 3 has no edge.\<close>

definition key1_graph :: graph where
  "key1_graph =
     [(1, \<lparr>lat = 0, lon = 0, adj = [(2, [(1, mk_edge 100 10 10)])]\<rparr>),
      (2, \<lparr>lat = 0, lon = 0, adj = []\<rparr>),
      (3, \<lparr>lat = 0, lon = 0, adj = []\<rparr>)]"

text \<open>
  Node 1 leads to 2 and to 3, node 3 leads to 2 by an edge stored under key 1 alone, node 4
  has no edge. By time node 2 is nearer to 1 than node 3 is, by pollution node 3 is nearer.
\<close>

definition mixed_graph :: graph where
  "mixed_graph =
     [(1, \<lparr>lat = 0, lon = 0,
           adj = [(2, [(0, mk_edge 100 1 5)]), (3, [(0, mk_edge 100 5 1)])]\<rparr>),
      (2, \<lparr>lat = 0, lon = 0, adj = []\<rparr>),
      (3, \<lparr>lat = 0, lon = 0, adj = [(2, [(1, mk_edge 100 1 1)])]\<rparr>),
      (4, \<lparr>lat = 0, lon = 0, adj = []\<rparr>)]"

text \<open>Two nodes joined by two parallel edges: key 0 with time 10, key 1 with time 3.\<close>

definition parallel_graph :: graph where
  "parallel_graph =
     [(1, \<lparr>lat = 0, lon = 0,
           adj = [(2, [(0, mk_edge 100 10 10), (1, mk_edge 100 3 3)])]\<rparr>),
      (2, \<lparr>lat = 0, lon = 0, adj = []\<rparr>)]"

text \<open>Two nodes joined by one edge of 1000 m that has no \<open>time\<close> attribute.\<close>

definition untimed_graph :: graph where
  "untimed_graph =
     [(1, \<lparr>lat = 0, lon = 0,
           adj = [(2, [(0, \<lparr>attrs = [''length'' \<mapsto> 1000],
                              highway = Some (HwStr ''residential''),
                              road_type = None\<rparr>)])]\<rparr>),
      (2, \<lparr>lat = 0, lon = 0, adj = []\<rparr>)]"

text \<open>A stand-in for the nearest-node lookup on the example networks: by longitude alone.\<close>

definition nearest_by_lon :: "graph \<Rightarrow> real \<Rightarrow> real \<Rightarrow> node" where
  "nearest_by_lon G x y = (if x < 1 then 1 else if x < 2 then 4 else 5)"

text \<open>
  Two states of the search that differ at most in the arrangement of the frontier:
  the same entries, as a bag, and every other variable equal.
\<close>

definition bag_eq :: "search_state \<Rightarrow> search_state \<Rightarrow> bool" where
  "bag_eq st1 st2 \<longleftrightarrow>
     mset (open_set st1) = mset (open_set st2)
   \<and> came_from st1 = came_from st2 \<and> g_scores st1 = g_scores st2
   \<and> explored_nodes st1 = explored_nodes st2 \<and> explored_edges st1 = explored_edges st2
   \<and> closed_set st1 = closed_set st2"

text \<open>The diamond after its first expansion: node 1 closed, nodes 2 and 3 in the frontier.\<close>

definition diamond_state :: search_state where
  "diamond_state =
     \<lparr>open_set = [(10, 10, 2), (3, 3, 3)], came_from = [2 \<mapsto> 1, 3 \<mapsto> 1],
      g_scores = [1 \<mapsto> 0, 2 \<mapsto> 10, 3 \<mapsto> 3], explored_nodes = [1],
      explored_edges = [(1, 2), (1, 3)], closed_set = {1}\<rparr>"

section \<open>Walks and their cost\<close>

text \<open>\<open>G.edges(keys=True, data=True)\<close>: every stored edge \<open>(u, v, key, data)\<close>.\<close>

definition graph_edges :: "graph \<Rightarrow> (node \<times> node \<times> nat \<times> edge_data) list" where
  "graph_edges G =
     concat (map (\<lambda>ne.
       concat (map (\<lambda>ves. map (\<lambda>ked. (fst ne, fst ves, fst ked, snd ked)) (snd ves))
                 (adj (snd ne)))) G)"

text \<open>
  \<open>walk G u es t\<close>: the edges \<open>es\<close> of \<open>G\<close>, taken in order, lead from \<open>u\<close> to \<open>t\<close>. A walk may
  use any stored edge, also a parallel one that the search never reads.
\<close>

fun walk :: "graph \<Rightarrow> node \<Rightarrow> (node \<times> node \<times> nat \<times> edge_data) list \<Rightarrow> node \<Rightarrow> bool" where
  "walk G u [] t \<longleftrightarrow> u = t"
| "walk G u (e # rest) t \<longleftrightarrow> fst e = u \<and> e \<in> set (graph_edges G) \<and> walk G (fst (snd e)) rest t"

text \<open>The cost of a walk under a criterion, each edge charged as the search charges it.\<close>

definition walk_cost :: "string \<Rightarrow> (node \<times> node \<times> nat \<times> edge_data) list \<Rightarrow> real" where
  "walk_cost weight es = sum_list (map (\<lambda>e. edge_cost (snd (snd (snd e))) weight) es)"

text \<open>
  Every edge joins two nodes with coordinates, and its length (as the weighting scheme
  reads it, \<open>data.get('length', 100)\<close>) is at least the great-circle distance between them,
  which is the haversine distance computed without rounding.
\<close>

definition lengths_cover :: "graph \<Rightarrow> bool" where
  "lengths_cover G \<longleftrightarrow>
     list_all (\<lambda>e.
       (case node_coords G (fst e) of
          Inl err \<Rightarrow> False
        | Inr cu \<Rightarrow>
            (case node_coords G (fst (snd e)) of
               Inl err \<Rightarrow> False
             | Inr cv \<Rightarrow>
                 (case haversine_distance exact_math (fst cu) (snd cu) (fst cv) (snd cv) of
                    Inl err \<Rightarrow> False
                  | Inr d \<Rightarrow> d \<le> dict_get (attrs (snd (snd (snd e)))) ''length'' 100))))
       (graph_edges G)"

text \<open>
  The cosine of the central angle between two points given by latitude and longitude in
  radians: the inner product of their unit vectors.
\<close>

definition cos_angle :: "real \<Rightarrow> real \<Rightarrow> real \<Rightarrow> real \<Rightarrow> real" where
  "cos_angle p1 l1 p2 l2 = sin p1 * sin p2 + cos p1 * cos p2 * cos (l2 - l1)"

text \<open>
  Two nodes a quarter of the equator apart, joined by a motorway of 12742 km (the
  great-circle distance is about 10008 km), before the weights are added.
\<close>

definition quarter_graph :: graph where
  "quarter_graph =
     [(1, \<lparr>lat = 0, lon = 0,
           adj = [(2, [(0, \<lparr>attrs = [''length'' \<mapsto> 12742000],
                             highway = Some (HwStr ''motorway''), road_type = None\<rparr>)])]\<rparr>),
      (2, \<lparr>lat = 0, lon = 90, adj = []\<rparr>)]"

text \<open>The same network with the weights that \<open>add_pollution_weights\<close> gives its edge.\<close>

definition quarter_edge :: edge_data where
  "quarter_edge =
     \<lparr>attrs = [''length'' \<mapsto> 12742000, ''pollution'' \<mapsto> 12742000,
               ''pollution_multiplier'' \<mapsto> 1, ''time'' \<mapsto> 573390],
      highway = Some (HwStr ''motorway''), road_type = Some ''motorway''\<rparr>"

definition quarter_weighted :: graph where
  "quarter_weighted =
     [(1, \<lparr>lat = 0, lon = 0, adj = [(2, [(0, quarter_edge)])]\<rparr>),
      (2, \<lparr>lat = 0, lon = 90, adj = []\<rparr>)]"

section \<open>Termination of the search loop\<close>

lemma heap_min_mem: "heap_min m xs \<in> set (m # xs)"
  by (induction xs arbitrary: m) auto

lemma heappop_mem: "heappop h = Inr (m, r) \<Longrightarrow> m \<in> set h \<and> r = remove1 m h"
  using heap_min_mem by (auto simp: heappop_def Let_def split: list.splits)

lemma heappop_length: "heappop h = Inr (m, r) \<Longrightarrow> length r < length h"
proof -
  assume "heappop h = Inr (m, r)"
  then have m: "m \<in> set h" and r: "r = remove1 m h" by (auto dest: heappop_mem)
  from m have "0 < length h" by (rule length_pos_if_in_set)
  with m r show ?thesis by (simp add: length_remove1)
qed

lemma heappop_frontier:
  "heappop h = Inr (m, r) \<Longrightarrow> frontier_nodes r \<subseteq> frontier_nodes h"
proof -
  assume "heappop h = Inr (m, r)"
  then have "r = remove1 m h" by (auto dest: heappop_mem)
  then have "set r \<subseteq> set h" by (simp add: set_remove1_subset)
  then show ?thesis by (auto simp: frontier_nodes_def)
qed

lemma relax_frontier:
  "relax fm G w ec c cg st n = Inr st' \<Longrightarrow>
     frontier_nodes (open_set st') \<subseteq> insert n (frontier_nodes (open_set st))
     \<and> closed_set st' = closed_set st"
  by (auto simp: relax_def Let_def frontier_nodes_def heappush_def
           split: if_splits sum.splits option.splits)

lemma relax_all_frontier:
  "relax_all fm G w ec c cg st ns = Inr st' \<Longrightarrow>
     frontier_nodes (open_set st') \<subseteq> set ns \<union> frontier_nodes (open_set st)
     \<and> closed_set st' = closed_set st"
proof (induction ns arbitrary: st)
  case Nil
  then show ?case by simp
next
  case (Cons n ns)
  from Cons.prems obtain st1 where
    r: "relax fm G w ec c cg st n = Inr st1" and
    ra: "relax_all fm G w ec c cg st1 ns = Inr st'"
    by (auto split: sum.splits)
  from relax_frontier [OF r] Cons.IH [OF ra] show ?case by auto
qed

lemma neighbors_succ_nodes: "neighbors G c = Inr ns \<Longrightarrow> set ns \<subseteq> succ_nodes G"
  by (auto simp: neighbors_def succ_nodes_def split: option.splits dest!: map_of_SomeD)

lemma finite_pending: "finite (pending G st)"
  by (simp add: pending_def succ_nodes_def frontier_nodes_def)

termination astar_loop
proof (relation "inv_image (less_than <*lex*> less_than)
         (\<lambda>(fm, G, w, s, e, ec, st). (card (pending G st), length (open_set st)))", goal_cases)
  case 1
  then show ?case by (intro wf_inv_image wf_lex_prod wf_less_than)
next
  case (2 fm G w s e ec st popped cg c st1)
  obtain m r where p: "popped = (m, r)" by (cases popped)
  from 2 p have hp: "heappop (open_set st) = Inr (m, r)" by simp
  have "pending G st1 \<subseteq> pending G st"
    using heappop_frontier [OF hp] 2 p by (auto simp: pending_def)
  then have "card (pending G st1) \<le> card (pending G st)"
    by (intro card_mono finite_pending)
  moreover have "length (open_set st1) < length (open_set st)"
    using heappop_length [OF hp] 2 p by simp
  ultimately show ?case by auto
next
  case (3 fm G w s e ec st popped cg c st1 st2 st3 ns st4)
  obtain m r where p: "popped = (m, r)" by (cases popped)
  from 3 p have hp: "heappop (open_set st) = Inr (m, r)" by simp
  have c: "c = snd (snd m)" using 3 p by simp
  have "m \<in> set (open_set st)" using heappop_mem [OF hp] by simp
  then have "c \<in> frontier_nodes (open_set st)"
    unfolding frontier_nodes_def c by (rule imageI)
  moreover have "c \<notin> closed_set st" using 3 by simp
  ultimately have cin: "c \<in> pending G st" by (simp add: pending_def)
  have st3: "open_set st3 = r" "closed_set st3 = insert c (closed_set st)"
    using 3 p by simp_all
  have ra: "relax_all fm G w ec c cg st3 ns = Inr st4" using 3 by simp
  have nb: "neighbors G c = Inr ns" using 3 by simp
  have "pending G st4 \<subseteq> pending G st - {c}"
    using relax_all_frontier [OF ra] neighbors_succ_nodes [OF nb]
      heappop_frontier [OF hp] st3
    by (auto simp: pending_def)
  then have "pending G st4 \<subset> pending G st" using cin by auto
  then have "card (pending G st4) < card (pending G st)"
    by (intro psubset_card_mono finite_pending)
  then show ?case by auto
qed


declare astar_loop.simps [simp del]

lemma astar_loop_unfold:
  "astar_loop fm G weight start_node end_node end_coords st =
     (if open_set st = [] then
        Some (Inr (None, Infinity, explored_nodes st, explored_edges st))
      else
        (case heappop (open_set st) of
           Inl err \<Rightarrow> Some (Inl err)
         | Inr popped \<Rightarrow>
             if snd (snd (fst popped)) \<in> closed_set st then
               astar_loop fm G weight start_node end_node end_coords (st\<lparr>open_set := snd popped\<rparr>)
             else if snd (snd (fst popped)) = end_node then
               (case reconstruct (came_from st) end_node [] of
                  None \<Rightarrow> None
                | Some path \<Rightarrow>
                    Some (Inr (Some (rev (path @ [start_node])),
                               Finite (fst (snd (fst popped))),
                               explored_nodes st @ [snd (snd (fst popped))],
                               explored_edges st)))
             else
               (case neighbors G (snd (snd (fst popped))) of
                  Inl err \<Rightarrow> Some (Inl err)
                | Inr ns \<Rightarrow>
                    (case relax_all fm G weight end_coords (snd (snd (fst popped)))
                            (fst (snd (fst popped)))
                            (st\<lparr>open_set := snd popped,
                                explored_nodes := explored_nodes st @ [snd (snd (fst popped))],
                                closed_set := insert (snd (snd (fst popped))) (closed_set st)\<rparr>)
                            ns of
                       Inl err \<Rightarrow> Some (Inl err)
                     | Inr st4 \<Rightarrow>
                         astar_loop fm G weight start_node end_node end_coords st4))))"
  apply (subst astar_loop.simps)
  apply (simp only: Let_def)
  apply (simp cong: sum.case_cong if_cong option.case_cong)
  done

section \<open>Reasoning about the search loop\<close>

lemma heappop_nonempty: "h \<noteq> [] \<Longrightarrow> \<exists>f g c r. heappop h = Inr ((f, g, c), r)"
proof -
  assume "h \<noteq> []"
  then obtain x xs where h: "h = x # xs" by (cases h) auto
  obtain f g c where "heap_min x xs = (f, g, c)" by (cases "heap_min x xs")
  with h show ?thesis by (simp add: heappop_def Let_def)
qed

lemma astar_loop_cases:
  assumes empty: "\<And>st. open_set st = [] \<Longrightarrow> P st"
    and closed: "\<And>st f g c r. heappop (open_set st) = Inr ((f, g, c), r) \<Longrightarrow>
           c \<in> closed_set st \<Longrightarrow> P (st\<lparr>open_set := r\<rparr>) \<Longrightarrow> P st"
    and goal: "\<And>st f g r. heappop (open_set st) = Inr ((f, g, end_node), r) \<Longrightarrow>
           end_node \<notin> closed_set st \<Longrightarrow> P st"
    and expand: "\<And>st f g c r. heappop (open_set st) = Inr ((f, g, c), r) \<Longrightarrow>
           c \<notin> closed_set st \<Longrightarrow> c \<noteq> end_node \<Longrightarrow>
           (\<And>ns st4. neighbors G c = Inr ns \<Longrightarrow>
              relax_all fm G weight end_coords c g
                (st\<lparr>open_set := r, explored_nodes := explored_nodes st @ [c],
                    closed_set := insert c (closed_set st)\<rparr>) ns = Inr st4 \<Longrightarrow> P st4) \<Longrightarrow> P st"
  shows "P st"
proof -
  have "fm' = fm \<Longrightarrow> G' = G \<Longrightarrow> w' = weight \<Longrightarrow> e' = end_node \<Longrightarrow> ec' = end_coords \<Longrightarrow> P st"
    for fm' G' w' and s' :: node and e' ec'
  proof (induction fm' G' w' s' e' ec' st rule: astar_loop.induct)
    case (1 fm' G' w' s' e' ec' st)
    note eqs = "1.prems"
    show ?case
    proof (cases "open_set st = []")
      case True
      then show ?thesis by (rule empty)
    next
      case False
      then obtain f g c r where hp: "heappop (open_set st) = Inr ((f, g, c), r)"
        using heappop_nonempty by blast
      show ?thesis
      proof (cases "c \<in> closed_set st")
        case True
        have "P (st\<lparr>open_set := r\<rparr>)"
          using "1.IH"(1) [OF False hp refl refl refl _ eqs] True by simp
        with hp True show ?thesis by (rule closed)
      next
        case nc: False
        show ?thesis
        proof (cases "c = end_node")
          case True
          with hp have "heappop (open_set st) = Inr ((f, g, end_node), r)" by simp
          moreover from nc True have "end_node \<notin> closed_set st" by simp
          ultimately show ?thesis by (rule goal)
        next
          case ne: False
          have "P st4" if nb: "neighbors G c = Inr ns" and
            ra: "relax_all fm G weight end_coords c g
                  (st\<lparr>open_set := r, explored_nodes := explored_nodes st @ [c],
                      closed_set := insert c (closed_set st)\<rparr>) ns = Inr st4" for ns st4
            using "1.IH"(2) [OF False hp refl refl refl _ refl _ refl _ _ eqs, of ns st4]
              nc ne nb ra eqs
            by simp
          then show ?thesis using expand [OF hp nc ne] by blast
        qed
      qed
    qed
  qed
  then show ?thesis by simp
qed


lemma astar_loop_rule:
  assumes init: "I st"
    and closed: "\<And>st f g c r. I st \<Longrightarrow> heappop (open_set st) = Inr ((f, g, c), r) \<Longrightarrow>
           c \<in> closed_set st \<Longrightarrow> I (st\<lparr>open_set := r\<rparr>)"
    and expand: "\<And>st f g c r ns st4. I st \<Longrightarrow> heappop (open_set st) = Inr ((f, g, c), r) \<Longrightarrow>
           c \<notin> closed_set st \<Longrightarrow> c \<noteq> end_node \<Longrightarrow> neighbors G c = Inr ns \<Longrightarrow>
           relax_all fm G weight end_coords c g
             (st\<lparr>open_set := r, explored_nodes := explored_nodes st @ [c],
                 closed_set := insert c (closed_set st)\<rparr>) ns = Inr st4 \<Longrightarrow> I st4"
    and empty: "\<And>st. I st \<Longrightarrow> open_set st = [] \<Longrightarrow>
           Q (Some (Inr (None, Infinity, explored_nodes st, explored_edges st)))"
    and goal: "\<And>st f g r. I st \<Longrightarrow> heappop (open_set st) = Inr ((f, g, end_node), r) \<Longrightarrow>
           end_node \<notin> closed_set st \<Longrightarrow>
           Q (case reconstruct (came_from st) end_node [] of
                None \<Rightarrow> None
              | Some path \<Rightarrow>
                  Some (Inr (Some (rev (path @ [start_node])), Finite g,
                             explored_nodes st @ [end_node], explored_edges st)))"
    and err: "\<And>e. Q (Some (Inl e))"
  shows "Q (astar_loop fm G weight start_node end_node end_coords st)"
  using init
proof (induction st rule: astar_loop_cases [where fm = fm and G = G and weight = weight
      and end_node = end_node and end_coords = end_coords])
  case (1 st)
  then show ?case using empty by (subst astar_loop_unfold) simp
next
  case (2 st f g c r)
  then show ?case using closed [of st f g c r]
    by (subst astar_loop_unfold) (simp add: heappop_def split: list.splits)
next
  case (3 st f g r)
  have ne: "open_set st \<noteq> []" using 3(1) by (auto simp: heappop_def)
  show ?case using goal [OF 3(3) 3(1) 3(2)] 3(1,2) ne
    by (subst astar_loop_unfold) (simp cong: option.case_cong)
next
  case (4 st f g c r)
  have ne: "open_set st \<noteq> []" using 4(1) by (auto simp: heappop_def)
  show ?case
  proof (cases "neighbors G c")
    case (Inl e)
    then show ?thesis using 4(1,2,3) ne err by (subst astar_loop_unfold) simp
  next
    case (Inr ns)
    show ?thesis
    proof (cases "relax_all fm G weight end_coords c g
             (st\<lparr>open_set := r, explored_nodes := explored_nodes st @ [c],
                 closed_set := insert c (closed_set st)\<rparr>) ns")
      case (Inl e)
      then show ?thesis using 4(1,2,3) ne err Inr by (subst astar_loop_unfold) simp
    next
      case st4: (Inr st4)
      have "I st4" using expand [OF 4(5) 4(1) 4(2) 4(3) Inr st4] .
      then have "Q (astar_loop fm G weight start_node end_node end_coords st4)"
        using 4(4) [OF Inr st4] by simp
      then show ?thesis using 4(1,2,3) ne Inr st4 by (subst astar_loop_unfold) simp
    qed
  qed
qed

lemma search_invI:
  assumes "distinct (explored_nodes st)" "set (explored_nodes st) = closed_set st"
    and "s \<in> closed_set st \<or> open_set st = [(0, 0, s)]"
    and "g_scores st s = Some 0" "came_from st s = None"
    and "\<And>n p. came_from st n = Some p \<Longrightarrow>
          p \<in> closed_set st \<and>
          (\<exists>ed gp. edge0 G p n = Inr ed \<and> g_scores st p = Some gp \<and>
                   g_scores st n = Some (gp + edge_cost ed w))"
    and "\<And>n g. g_scores st n = Some g \<Longrightarrow> \<exists>path. tree_path (came_from st) s n path"
    and "\<And>f g n. (f, g, n) \<in> set (open_set st) \<Longrightarrow> n \<notin> closed_set st \<Longrightarrow>
          (\<exists>gs. g_scores st n = Some gs \<and> gs \<le> g) \<and>
          (n \<noteq> s \<longrightarrow> (\<exists>h. h_score fm G w ec n = Inr h \<and> f = g + h))"
    and "\<And>n gs. g_scores st n = Some gs \<Longrightarrow> n \<notin> closed_set st \<Longrightarrow>
          \<exists>f. (f, gs, n) \<in> set (open_set st)"
  shows "search_inv fm G w s ec st"
  unfolding search_inv_def using assms by (intro conjI allI impI) blast+

lemma inv_trace:
  "search_inv fm G w s ec st \<Longrightarrow> distinct (explored_nodes st) \<and> set (explored_nodes st) = closed_set st"
  by (simp add: search_inv_def)

lemma inv_start: "search_inv fm G w s ec st \<Longrightarrow> s \<in> closed_set st \<or> open_set st = [(0, 0, s)]"
  by (simp add: search_inv_def)

lemma inv_g0: "search_inv fm G w s ec st \<Longrightarrow> g_scores st s = Some 0 \<and> came_from st s = None"
  by (simp add: search_inv_def)

lemma inv_parent:
  "search_inv fm G w s ec st \<Longrightarrow> came_from st n = Some p \<Longrightarrow>
     p \<in> closed_set st \<and>
     (\<exists>ed gp. edge0 G p n = Inr ed \<and> g_scores st p = Some gp \<and>
              g_scores st n = Some (gp + edge_cost ed w))"
  by (simp add: search_inv_def)

lemma inv_path:
  "search_inv fm G w s ec st \<Longrightarrow> g_scores st n = Some g \<Longrightarrow>
     \<exists>path. tree_path (came_from st) s n path"
  unfolding search_inv_def by (elim conjE) blast

lemma inv_entry:
  "search_inv fm G w s ec st \<Longrightarrow> (f, g, n) \<in> set (open_set st) \<Longrightarrow> n \<notin> closed_set st \<Longrightarrow>
     (\<exists>gs. g_scores st n = Some gs \<and> gs \<le> g) \<and>
     (n \<noteq> s \<longrightarrow> (\<exists>h. h_score fm G w ec n = Inr h \<and> f = g + h))"
  unfolding search_inv_def by (elim conjE) blast

lemma inv_open:
  "search_inv fm G w s ec st \<Longrightarrow> g_scores st n = Some gs \<Longrightarrow> n \<notin> closed_set st \<Longrightarrow>
     \<exists>f. (f, gs, n) \<in> set (open_set st)"
  unfolding search_inv_def by (elim conjE) blast

lemma heap_min_le: "heap_min m xs \<le> m \<and> (\<forall>x \<in> set xs. heap_min m xs \<le> x)"
proof (induction xs arbitrary: m)
  case Nil
  then show ?case by simp
next
  case (Cons a xs)
  show ?case
  proof (cases "a < m")
    case True
    have "heap_min a xs \<le> a" "\<forall>x \<in> set xs. heap_min a xs \<le> x" using Cons [of a] by simp_all
    moreover have "heap_min a xs \<le> m" using \<open>heap_min a xs \<le> a\<close> True by (meson less_imp_le order_trans)
    ultimately show ?thesis using True by simp
  next
    case False
    then have ma: "m \<le> a" by simp
    have "heap_min m xs \<le> m" "\<forall>x \<in> set xs. heap_min m xs \<le> x" using Cons [of m] by simp_all
    moreover have "heap_min m xs \<le> a" using \<open>heap_min m xs \<le> m\<close> ma by (rule order_trans)
    ultimately show ?thesis using False by simp
  qed
qed

lemma heappop_least: "heappop h = Inr (m, r) \<Longrightarrow> x \<in> set h \<Longrightarrow> m \<le> x"
proof -
  assume hp: "heappop h = Inr (m, r)" and x: "x \<in> set h"
  then obtain y ys where h: "h = y # ys" by (cases h) auto
  with hp have m: "m = heap_min y ys" by (simp add: heappop_def Let_def)
  from x h have "x = y \<or> x \<in> set ys" by simp
  then show ?thesis using heap_min_le [of y ys] m by auto
qed

lemma search_inv_init: "search_inv fm G w s ec (init_state s)"
  by (rule search_invI) (auto simp: init_state_def intro: tree_path.root split: if_splits)

text \<open>The entry popped for an open node carries the recorded cost of that node.\<close>

lemma popped_g:
  assumes inv: "search_inv fm G w s ec st"
    and hp: "heappop (open_set st) = Inr ((f, g, c), r)"
    and nc: "c \<notin> closed_set st"
  shows "g_scores st c = Some g"
proof -
  have mem: "(f, g, c) \<in> set (open_set st)" using heappop_mem [OF hp] by simp
  show ?thesis
  proof (cases "c = s")
    case True
    with inv_start [OF inv] inv_g0 [OF inv] nc
    have "open_set st = [(0, 0, s)]" "g_scores st s = Some 0" by auto
    with mem True show ?thesis by simp
  next
    case False
    from inv_entry [OF inv mem nc] False obtain gs h where
      gs: "g_scores st c = Some gs" "gs \<le> g" and h: "h_score fm G w ec c = Inr h" "f = g + h"
      by auto
    from inv_open [OF inv gs(1) nc] obtain f' where mem': "(f', gs, c) \<in> set (open_set st)"
      by auto
    from inv_entry [OF inv mem' nc] False h have f': "f' = gs + h" by auto
    have "(f, g, c) \<le> (f', gs, c)" using heappop_least [OF hp mem'] .
    with h f' gs have "g = gs" by auto
    with gs show ?thesis by simp
  qed
qed

lemma tree_path_upd:
  "tree_path cf s n path \<Longrightarrow> n' \<notin> set path \<Longrightarrow> tree_path (cf(n' \<mapsto> c)) s n path"
proof (induction rule: tree_path.induct)
  case root
  then have "(cf(n' \<mapsto> c)) s = None" by simp
  then show ?case by (rule tree_path.root)
next
  case (step n p path)
  from step.prems have "n \<noteq> n'" "n' \<notin> set path" by auto
  with step.hyps(1) have "(cf(n' \<mapsto> c)) n = Some p" by simp
  moreover have "tree_path (cf(n' \<mapsto> c)) s p path" using step.IH \<open>n' \<notin> set path\<close> .
  ultimately show ?case by (rule tree_path.step)
qed

lemma tree_path_nodes:
  "tree_path cf s n path \<Longrightarrow> (\<And>m p. cf m = Some p \<Longrightarrow> p \<in> C) \<Longrightarrow>
     path \<noteq> [] \<and> last path = n \<and> set (butlast path) \<subseteq> C"
proof (induction rule: tree_path.induct)
  case root
  then show ?case by simp
next
  case (step n p path)
  have ih: "path \<noteq> []" "last path = p" "set (butlast path) \<subseteq> C"
    using step.IH step.prems by blast+
  have "p \<in> C" using step.prems step.hyps(1) by blast
  moreover have "path = butlast path @ [last path]" using ih(1) by simp
  then have "set path = insert (last path) (set (butlast path))"
    by (metis Un_insert_right append_Nil2 list.simps(15) set_append)
  ultimately have "set path \<subseteq> C" using ih by simp
  then show ?case by simp
qed

lemma relax_cases:
  assumes "relax fm G w ec c g st n = Inr st'"
  obtains (same) "st' = st"
  | (update) ed h where "n \<notin> closed_set st" "edge0 G c n = Inr ed" "h_score fm G w ec n = Inr h"
      "\<And>old. g_scores st n = Some old \<Longrightarrow> g + edge_cost ed w < old"
      "st' = st\<lparr>came_from := (came_from st)(n \<mapsto> c),
                g_scores := (g_scores st)(n \<mapsto> g + edge_cost ed w),
                explored_edges := explored_edges st @ [(c, n)],
                open_set := open_set st @ [(g + edge_cost ed w + h, g + edge_cost ed w, n)]\<rparr>"
proof (cases "n \<in> closed_set st")
  case True
  with assms have "st' = st" by (simp add: relax_def)
  then show ?thesis by (rule same)
next
  case nc: False
  show ?thesis
  proof (cases "edge0 G c n")
    case (Inl e)
    with assms nc show ?thesis by (simp add: relax_def)
  next
    case (Inr ed)
    show ?thesis
    proof (cases "case g_scores st n of None \<Rightarrow> True | Some old \<Rightarrow> g + edge_cost ed w < old")
      case False
      with assms nc Inr have "st' = st" by (simp add: relax_def Let_def)
      then show ?thesis by (rule same)
    next
      case True
      show ?thesis
      proof (cases "h_score fm G w ec n")
        case (Inl e)
        with assms nc Inr True show ?thesis by (simp add: relax_def Let_def)
      next
        case h: (Inr h)
        have "st' = st\<lparr>came_from := (came_from st)(n \<mapsto> c),
                g_scores := (g_scores st)(n \<mapsto> g + edge_cost ed w),
                explored_edges := explored_edges st @ [(c, n)],
                open_set := open_set st @ [(g + edge_cost ed w + h, g + edge_cost ed w, n)]\<rparr>"
          using assms nc Inr True h by (simp add: relax_def Let_def heappush_def)
        moreover have "g + edge_cost ed w < old" if "g_scores st n = Some old" for old
          using True that by simp
        ultimately show ?thesis using nc Inr h by (intro update) auto
      qed
    qed
  qed
qed

lemma search_inv_pop_closed:
  assumes inv: "search_inv fm G w s ec st"
    and hp: "heappop (open_set st) = Inr ((f, g, c), r)"
    and c: "c \<in> closed_set st"
  shows "search_inv fm G w s ec (st\<lparr>open_set := r\<rparr>)"
proof -
  define st' where "st' = st\<lparr>open_set := r\<rparr>"
  have r: "r = remove1 (f, g, c) (open_set st)" and mem: "(f, g, c) \<in> set (open_set st)"
    using heappop_mem [OF hp] by simp_all
  have flds: "explored_nodes st' = explored_nodes st" "closed_set st' = closed_set st"
    "g_scores st' = g_scores st" "came_from st' = came_from st" "open_set st' = r"
    by (simp_all add: st'_def)
  have sub: "x \<in> set (open_set st)" if "x \<in> set r" for x
    using that r by (meson notin_set_remove1)
  have "search_inv fm G w s ec st'"
  proof (rule search_invI)
    show "distinct (explored_nodes st')" "set (explored_nodes st') = closed_set st'"
      using inv_trace [OF inv] flds by simp_all
    show "s \<in> closed_set st' \<or> open_set st' = [(0, 0, s)]"
    proof (cases "s \<in> closed_set st")
      case True
      then show ?thesis using flds by simp
    next
      case False
      with inv_start [OF inv] have "open_set st = [(0, 0, s)]" by simp
      with mem have "c = s" by simp
      with c False show ?thesis by simp
    qed
    show "g_scores st' s = Some 0" "came_from st' s = None"
      using inv_g0 [OF inv] flds by simp_all
    show "p \<in> closed_set st' \<and>
         (\<exists>ed gp. edge0 G p n = Inr ed \<and> g_scores st' p = Some gp \<and>
                  g_scores st' n = Some (gp + edge_cost ed w))"
      if "came_from st' n = Some p" for n p
      using inv_parent [OF inv, of n p] that flds by simp
    show "\<exists>path. tree_path (came_from st') s n path" if "g_scores st' n = Some g'" for n g'
      using inv_path [OF inv, of n g'] that flds by simp
    show "(\<exists>gs. g_scores st' n = Some gs \<and> gs \<le> g') \<and>
          (n \<noteq> s \<longrightarrow> (\<exists>h. h_score fm G w ec n = Inr h \<and> f' = g' + h))"
      if "(f', g', n) \<in> set (open_set st')" "n \<notin> closed_set st'" for f' g' n
    proof -
      have "(f', g', n) \<in> set (open_set st)" using that(1) flds sub by simp
      moreover have "n \<notin> closed_set st" using that(2) flds by simp
      ultimately show ?thesis using inv_entry [OF inv] flds by simp
    qed
    show "\<exists>f'. (f', gs, n) \<in> set (open_set st')"
      if "g_scores st' n = Some gs" "n \<notin> closed_set st'" for n gs
    proof -
      have "g_scores st n = Some gs" "n \<notin> closed_set st" using that flds by simp_all
      from inv_open [OF inv this] obtain f' where f': "(f', gs, n) \<in> set (open_set st)" by auto
      have "n \<noteq> c" using \<open>n \<notin> closed_set st\<close> c by auto
      then have "(f', gs, n) \<noteq> (f, g, c)" by simp
      with f' have "(f', gs, n) \<in> set r" unfolding r by simp
      then show ?thesis using flds by auto
    qed
  qed
  then show ?thesis by (simp add: st'_def)
qed

lemma search_inv_close:
  assumes inv: "search_inv fm G w s ec st"
    and hp: "heappop (open_set st) = Inr ((f, g, c), r)"
    and nc: "c \<notin> closed_set st"
    and st': "st' = st\<lparr>open_set := r, explored_nodes := explored_nodes st @ [c],
                       closed_set := insert c (closed_set st)\<rparr>"
  shows "search_inv fm G w s ec st' \<and> s \<in> closed_set st' \<and> c \<in> closed_set st'
         \<and> g_scores st' c = Some g"
proof -
  have r: "r = remove1 (f, g, c) (open_set st)" and mem: "(f, g, c) \<in> set (open_set st)"
    using heappop_mem [OF hp] by simp_all
  have flds: "explored_nodes st' = explored_nodes st @ [c]"
    "closed_set st' = insert c (closed_set st)"
    "g_scores st' = g_scores st" "came_from st' = came_from st" "open_set st' = r"
    by (simp_all add: st')
  have sub: "x \<in> set (open_set st)" if "x \<in> set r" for x
    using that r by (meson notin_set_remove1)
  have sc: "s \<in> closed_set st'"
  proof (cases "s \<in> closed_set st")
    case True
    then show ?thesis using flds by simp
  next
    case False
    with inv_start [OF inv] have "open_set st = [(0, 0, s)]" by simp
    with mem have "c = s" by simp
    then show ?thesis using flds by simp
  qed
  have gc: "g_scores st' c = Some g" using popped_g [OF inv hp nc] flds by simp
  have "search_inv fm G w s ec st'"
  proof (rule search_invI)
    show "distinct (explored_nodes st')" "set (explored_nodes st') = closed_set st'"
      using inv_trace [OF inv] flds nc by auto
    show "s \<in> closed_set st' \<or> open_set st' = [(0, 0, s)]" using sc by simp
    show "g_scores st' s = Some 0" "came_from st' s = None"
      using inv_g0 [OF inv] flds by simp_all
    show "p \<in> closed_set st' \<and>
         (\<exists>ed gp. edge0 G p n = Inr ed \<and> g_scores st' p = Some gp \<and>
                  g_scores st' n = Some (gp + edge_cost ed w))"
      if "came_from st' n = Some p" for n p
      using inv_parent [OF inv, of n p] that flds by simp
    show "\<exists>path. tree_path (came_from st') s n path" if "g_scores st' n = Some g'" for n g'
      using inv_path [OF inv, of n g'] that flds by simp
    show "(\<exists>gs. g_scores st' n = Some gs \<and> gs \<le> g') \<and>
          (n \<noteq> s \<longrightarrow> (\<exists>h. h_score fm G w ec n = Inr h \<and> f' = g' + h))"
      if "(f', g', n) \<in> set (open_set st')" "n \<notin> closed_set st'" for f' g' n
    proof -
      have "(f', g', n) \<in> set (open_set st)" using that(1) flds sub by simp
      moreover have "n \<notin> closed_set st" using that(2) flds by simp
      ultimately show ?thesis using inv_entry [OF inv] flds by simp
    qed
    show "\<exists>f'. (f', gs, n) \<in> set (open_set st')"
      if "g_scores st' n = Some gs" "n \<notin> closed_set st'" for n gs
    proof -
      have "g_scores st n = Some gs" "n \<notin> closed_set st" "n \<noteq> c" using that flds by simp_all
      from inv_open [OF inv this(1,2)] obtain f' where
        f': "(f', gs, n) \<in> set (open_set st)" by auto
      have "(f', gs, n) \<noteq> (f, g, c)" using \<open>n \<noteq> c\<close> by simp
      with f' have "(f', gs, n) \<in> set r" unfolding r by simp
      then show ?thesis using flds by auto
    qed
  qed
  then show ?thesis using sc gc flds by simp
qed

lemma search_inv_relax:
  assumes inv: "search_inv fm G w s ec st"
    and sc: "s \<in> closed_set st" and cc: "c \<in> closed_set st"
    and gc: "g_scores st c = Some g"
    and rl: "relax fm G w ec c g st n = Inr st'"
  shows "search_inv fm G w s ec st' \<and> s \<in> closed_set st' \<and> c \<in> closed_set st'
         \<and> g_scores st' c = Some g"
  using rl
proof (cases rule: relax_cases)
  case same
  then show ?thesis using inv sc cc gc by simp
next
  case (update ed h)
  define tg where "tg = g + edge_cost ed w"
  have flds: "explored_nodes st' = explored_nodes st" "closed_set st' = closed_set st"
    "g_scores st' = (g_scores st)(n \<mapsto> tg)" "came_from st' = (came_from st)(n \<mapsto> c)"
    "open_set st' = open_set st @ [(tg + h, tg, n)]"
    by (simp_all add: update(5) tg_def)
  have nc: "n \<notin> closed_set st" by (rule update(1))
  have ns: "n \<noteq> s" and ncc: "n \<noteq> c" using nc sc cc by auto
  have parents: "p \<in> closed_set st" if "came_from st m = Some p" for m p
    using inv_parent [OF inv that] by simp
  have "search_inv fm G w s ec st'"
  proof (rule search_invI)
    show "distinct (explored_nodes st')" "set (explored_nodes st') = closed_set st'"
      using inv_trace [OF inv] flds by simp_all
    show "s \<in> closed_set st' \<or> open_set st' = [(0, 0, s)]" using sc flds by simp
    show "g_scores st' s = Some 0" "came_from st' s = None"
      using inv_g0 [OF inv] flds ns by simp_all
    show "p \<in> closed_set st' \<and>
         (\<exists>ed gp. edge0 G p m = Inr ed \<and> g_scores st' p = Some gp \<and>
                  g_scores st' m = Some (gp + edge_cost ed w))"
      if cf: "came_from st' m = Some p" for m p
    proof (cases "m = n")
      case True
      with cf flds have "p = c" by simp
      then show ?thesis using True cc gc ncc update(2) flds tg_def by simp
    next
      case False
      with cf flds have cf': "came_from st m = Some p" by simp
      from inv_parent [OF inv cf'] have pc: "p \<in> closed_set st" by simp
      with nc have "p \<noteq> n" by auto
      then show ?thesis using inv_parent [OF inv cf'] False flds by simp
    qed
    show "\<exists>path. tree_path (came_from st') s m path" if gm: "g_scores st' m = Some g'" for m g'
    proof (cases "m = n")
      case True
      from inv_path [OF inv gc] obtain path where tp: "tree_path (came_from st) s c path"
        by auto
      from tree_path_nodes [OF tp, of "closed_set st"] parents
      have "last path = c" "set (butlast path) \<subseteq> closed_set st" "path \<noteq> []" by blast+
      then have "set path \<subseteq> closed_set st" using cc
        by (metis append_butlast_last_id insert_subset list.simps(15) set_append Un_insert_right
            append_Nil2 empty_set sup_bot.right_neutral)
      with nc have "n \<notin> set path" by auto
      from tree_path_upd [OF tp this] have tp': "tree_path (came_from st') s c path"
        using flds by simp
      have "came_from st' n = Some c" using flds by simp
      then have "tree_path (came_from st') s n (path @ [n])" using tp' by (rule tree_path.step)
      then show ?thesis using True by auto
    next
      case False
      with gm flds have "g_scores st m = Some g'" by simp
      from inv_path [OF inv this] obtain path where tp: "tree_path (came_from st) s m path"
        by auto
      from tree_path_nodes [OF tp, of "closed_set st"] parents
      have "last path = m" "set (butlast path) \<subseteq> closed_set st" "path \<noteq> []" by blast+
      then have "set path \<subseteq> insert m (closed_set st)"
        by (metis append_butlast_last_id insert_subset list.simps(15) set_append Un_insert_right
            append_Nil2 empty_set sup_bot.right_neutral subset_insertI2 insertI1)
      with nc False have "n \<notin> set path" by auto
      from tree_path_upd [OF tp this] show ?thesis using flds by auto
    qed
    show "(\<exists>gs. g_scores st' m = Some gs \<and> gs \<le> g') \<and>
          (m \<noteq> s \<longrightarrow> (\<exists>h. h_score fm G w ec m = Inr h \<and> f' = g' + h))"
      if mem: "(f', g', m) \<in> set (open_set st')" and mc: "m \<notin> closed_set st'" for f' g' m
    proof (cases "(f', g', m) = (tg + h, tg, n)")
      case True
      then show ?thesis using flds update(3) by simp
    next
      case False
      with mem flds have old: "(f', g', m) \<in> set (open_set st)" by auto
      have mc': "m \<notin> closed_set st" using mc flds by simp
      from inv_entry [OF inv old mc'] obtain gs where
        gs: "g_scores st m = Some gs" "gs \<le> g'" and
        hh: "m \<noteq> s \<longrightarrow> (\<exists>h. h_score fm G w ec m = Inr h \<and> f' = g' + h)" by auto
      show ?thesis
      proof (cases "m = n")
        case True
        with gs update(4) have "tg < gs" by (simp add: tg_def)
        with gs True hh flds show ?thesis by simp
      next
        case False
        with gs hh flds show ?thesis by simp
      qed
    qed
    show "\<exists>f'. (f', gs, m) \<in> set (open_set st')"
      if gm: "g_scores st' m = Some gs" and mc: "m \<notin> closed_set st'" for m gs
    proof (cases "m = n")
      case True
      with gm flds have "gs = tg" by simp
      then show ?thesis using True flds by auto
    next
      case False
      with gm flds have "g_scores st m = Some gs" by simp
      moreover have "m \<notin> closed_set st" using mc flds by simp
      ultimately obtain f' where "(f', gs, m) \<in> set (open_set st)"
        using inv_open [OF inv] by blast
      then show ?thesis using flds by auto
    qed
  qed
  then show ?thesis using sc cc gc flds ncc by simp
qed

lemma search_inv_relax_all:
  assumes "search_inv fm G w s ec st" "s \<in> closed_set st" "c \<in> closed_set st"
    "g_scores st c = Some g" "relax_all fm G w ec c g st ns = Inr st'"
  shows "search_inv fm G w s ec st'"
  using assms
proof (induction ns arbitrary: st)
  case Nil
  then show ?case by simp
next
  case (Cons n ns)
  from Cons.prems(5) obtain st1 where
    r: "relax fm G w ec c g st n = Inr st1" and
    ra: "relax_all fm G w ec c g st1 ns = Inr st'"
    by (auto split: sum.splits)
  from search_inv_relax [OF Cons.prems(1-4) r] Cons.IH [OF _ _ _ _ ra] show ?case by blast
qed

lemma search_inv_expand:
  assumes inv: "search_inv fm G w s ec st"
    and hp: "heappop (open_set st) = Inr ((f, g, c), r)"
    and nc: "c \<notin> closed_set st"
    and ra: "relax_all fm G w ec c g
               (st\<lparr>open_set := r, explored_nodes := explored_nodes st @ [c],
                   closed_set := insert c (closed_set st)\<rparr>) ns = Inr st4"
  shows "search_inv fm G w s ec st4"
  using search_inv_close [OF inv hp nc refl] search_inv_relax_all [OF _ _ _ _ ra] by blast

lemma tree_path_ends: "tree_path cf s n path \<Longrightarrow> path \<noteq> [] \<and> hd path = s \<and> last path = n"
  by (induction rule: tree_path.induct) auto

lemma reconstruct_tree_path:
  "tree_path cf s n path \<Longrightarrow> reconstruct cf n acc = Some (acc @ rev (tl path))"
proof (induction arbitrary: acc rule: tree_path.induct)
  case root
  then show ?case by (subst reconstruct.simps) simp
next
  case (step n p path)
  have ne: "path \<noteq> []" using tree_path_ends [OF step.hyps(2)] by simp
  have "reconstruct cf n acc = reconstruct cf p (acc @ [n])"
    using step.hyps(1) by (subst reconstruct.simps) simp
  also have "\<dots> = Some ((acc @ [n]) @ rev (tl path))" by (rule step.IH)
  also have "(acc @ [n]) @ rev (tl path) = acc @ rev (tl (path @ [n]))" using ne by simp
  finally show ?case .
qed

lemma tree_path_links:
  "tree_path cf s n path \<Longrightarrow> Suc i < length path \<Longrightarrow> cf (path ! Suc i) = Some (path ! i)"
proof (induction arbitrary: i rule: tree_path.induct)
  case root
  then show ?case by simp
next
  case (step n p path)
  have e: "path \<noteq> []" "last path = p" using tree_path_ends [OF step.hyps(2)] by simp_all
  show ?case
  proof (cases "Suc i < length path")
    case True
    then show ?thesis using step.IH [OF True] by (simp add: nth_append)
  next
    case False
    with step.prems have i: "Suc i = length path" by simp
    then have "(path @ [n]) ! Suc i = n" by simp
    moreover have "i = length path - 1" using i by simp
    then have "(path @ [n]) ! i = last path"
      using e(1) by (simp add: nth_append last_conv_nth)
    ultimately show ?thesis using step.hyps(1) e(2) by simp
  qed
qed

lemma attr_total_snoc:
  "path \<noteq> [] \<Longrightarrow>
   attr_total G a (path @ [n]) t =
     (case attr_total G a path t of
        Inl err \<Rightarrow> Inl err
      | Inr t' \<Rightarrow>
          (case edge0 G (last path) n of
             Inl err \<Rightarrow> Inl err
           | Inr ed \<Rightarrow> Inr (t' + dict_get (attrs ed) a 0)))"
  by (induction G a path t rule: attr_total.induct) (simp_all split: sum.splits)

lemma tree_path_cost:
  assumes tp: "tree_path cf s n path"
    and par: "\<And>m p. cf m = Some p \<Longrightarrow>
          \<exists>ed gp. edge0 G p m = Inr ed \<and> gs p = Some gp \<and> gs m = Some (gp + edge_cost ed w)"
    and g0: "gs s = Some 0"
    and present: "\<forall>i ed. Suc i < length path \<longrightarrow>
          edge0 G (path ! i) (path ! Suc i) = Inr ed \<longrightarrow> attrs ed w \<noteq> None"
  shows "\<exists>g. gs n = Some g \<and> attr_total G w path 0 = Inr g"
  using tp present
proof (induction rule: tree_path.induct)
  case root
  then show ?case using g0 by simp
next
  case (step n p path)
  have e: "path \<noteq> []" "last path = p" using tree_path_ends [OF step.hyps(2)] by simp_all
  have "attrs ed w \<noteq> None"
    if "Suc i < length path" "edge0 G (path ! i) (path ! Suc i) = Inr ed" for i ed
    using step.prems [rule_format, of i ed] that by (simp add: nth_append)
  then have "\<forall>i ed. Suc i < length path \<longrightarrow>
      edge0 G (path ! i) (path ! Suc i) = Inr ed \<longrightarrow> attrs ed w \<noteq> None" by blast
  from step.IH [OF this] obtain gp where gp: "gs p = Some gp" "attr_total G w path 0 = Inr gp"
    by blast
  from par [OF step.hyps(1)] gp obtain ed where
    ed: "edge0 G p n = Inr ed" "gs n = Some (gp + edge_cost ed w)" by auto
  have i: "Suc (length path - 1) < length (path @ [n])" using e(1) by simp
  have "(path @ [n]) ! (length path - 1) = p" "(path @ [n]) ! Suc (length path - 1) = n"
    using e by (simp_all add: nth_append last_conv_nth)
  with step.prems [rule_format, OF i, of ed] ed have "attrs ed w \<noteq> None" by simp
  then have "edge_cost ed w = dict_get (attrs ed) w 0"
    by (auto simp: edge_cost_def dict_get_def)
  then show ?case using gp ed e by (simp add: attr_total_snoc)
qed

text \<open>What the invariant gives for the tuple that the search returns.\<close>

lemma astar_loop_result:
  assumes inv: "search_inv fm G w s ec st0"
    and res: "astar_loop fm G w s e ec st0 = Some (Inr (p, c, en, ee))"
  shows "distinct en \<and>
     (case p of
        None \<Rightarrow> c = Infinity
      | Some path \<Rightarrow>
          (\<exists>st g. search_inv fm G w s ec st \<and> tree_path (came_from st) s e path \<and>
                  g_scores st e = Some g \<and> c = Finite g))"
proof -
  define Q :: "(py_error + search_result) option \<Rightarrow> bool" where
    "Q r \<longleftrightarrow> (\<forall>p c en ee. r = Some (Inr (p, c, en, ee)) \<longrightarrow>
       distinct en \<and>
       (case p of
          None \<Rightarrow> c = Infinity
        | Some path \<Rightarrow>
            (\<exists>st g. search_inv fm G w s ec st \<and> tree_path (came_from st) s e path \<and>
                    g_scores st e = Some g \<and> c = Finite g)))" for r
  have "Q (astar_loop fm G w s e ec st0)"
  proof (rule astar_loop_rule [where I = "search_inv fm G w s ec"])
    show "search_inv fm G w s ec st0" by (rule inv)
  next
    fix st f g c r
    assume "search_inv fm G w s ec st" "heappop (open_set st) = Inr ((f, g, c), r)"
      "c \<in> closed_set st"
    then show "search_inv fm G w s ec (st\<lparr>open_set := r\<rparr>)" by (rule search_inv_pop_closed)
  next
    fix st f g c r ns st4
    assume "search_inv fm G w s ec st" "heappop (open_set st) = Inr ((f, g, c), r)"
      "c \<notin> closed_set st" "c \<noteq> e" "neighbors G c = Inr ns"
      "relax_all fm G w ec c g
         (st\<lparr>open_set := r, explored_nodes := explored_nodes st @ [c],
             closed_set := insert c (closed_set st)\<rparr>) ns = Inr st4"
    then show "search_inv fm G w s ec st4" using search_inv_expand by blast
  next
    fix st
    assume "search_inv fm G w s ec st" "open_set st = []"
    then show "Q (Some (Inr (None, Infinity, explored_nodes st, explored_edges st)))"
      using inv_trace [of fm G w s ec st] by (simp add: Q_def)
  next
    fix st f g r
    assume i: "search_inv fm G w s ec st" and hp: "heappop (open_set st) = Inr ((f, g, e), r)"
      and nc: "e \<notin> closed_set st"
    have ge: "g_scores st e = Some g" by (rule popped_g [OF i hp nc])
    from inv_path [OF i ge] obtain path where tp: "tree_path (came_from st) s e path" by auto
    have rc: "reconstruct (came_from st) e [] = Some (rev (tl path))"
      using reconstruct_tree_path [OF tp, of "[]"] by simp
    have "rev (rev (tl path) @ [s]) = path" using tree_path_ends [OF tp] by (cases path) auto
    moreover have "distinct (explored_nodes st @ [e])" using inv_trace [OF i] nc by auto
    ultimately show "Q (case reconstruct (came_from st) e [] of
                None \<Rightarrow> None
              | Some path \<Rightarrow>
                  Some (Inr (Some (rev (path @ [s])), Finite g,
                             explored_nodes st @ [e], explored_edges st)))"
      using rc i tp ge by (auto simp: Q_def)
  next
    fix err
    show "Q (Some (Inl err))" by (simp add: Q_def)
  qed
  then show ?thesis using res unfolding Q_def by blast
qed

lemma astar_result:
  assumes "astar_pathfinding fm G s e w = Some (Inr (p, c, en, ee))"
  shows "distinct en \<and>
     (case p of
        None \<Rightarrow> c = Infinity
      | Some path \<Rightarrow>
          (\<exists>ec st g. search_inv fm G w s ec st \<and> tree_path (came_from st) s e path \<and>
                  g_scores st e = Some g \<and> c = Finite g))"
proof (cases "node_coords G e")
  case (Inl err)
  with assms show ?thesis by (simp add: astar_pathfinding_def)
next
  case (Inr ec)
  with assms have "astar_loop fm G w s e ec (init_state s) = Some (Inr (p, c, en, ee))"
    by (simp add: astar_pathfinding_def)
  note r = astar_loop_result [OF search_inv_init this]
  show ?thesis
  proof (cases p)
    case None
    with r show ?thesis by simp
  next
    case (Some path)
    with r obtain st g where a: "search_inv fm G w s ec st" "tree_path (came_from st) s e path"
      "g_scores st e = Some g" "c = Finite g" by auto
    then have "\<exists>ec st g. search_inv fm G w s ec st \<and> tree_path (came_from st) s e path \<and>
                  g_scores st e = Some g \<and> c = Finite g" by blast
    with r Some show ?thesis by simp
  qed
qed

section \<open>The search on the example networks\<close>

lemma exact_math_simps [simp]:
  "rnd exact_math x = x" "f_sin exact_math = sin" "f_cos exact_math = cos"
  "f_atan2 exact_math = atan2" "f_radians exact_math = radians" "f_pow exact_math x n = x ^ n"
  by (simp_all add: exact_math_def)

lemma haversine_same [simp]: "haversine_distance exact_math a b a b = Inr 0"
  by (simp add: haversine_distance_def py_sqrt_def radians_def atan2_def)

lemmas eval_defs =
  astar_pathfinding_def node_coords_def init_state_def astar_loop_unfold heappop_def
  heappush_def neighbors_def relax_def edge0_def edge_cost_def dict_get_def h_score_def
  mk_edge_def reconstruct.simps Let_def

lemma diamond_time:
  "astar_pathfinding exact_math diamond_graph 1 4 ''time'' =
     Some (Inr (Some [1, 3, 2, 4], Finite 6, [1, 3, 2, 4], [(1, 2), (1, 3), (3, 2), (2, 4)]))"
  by (simp add: diamond_graph_def eval_defs)

lemma diamond_unreachable:
  "astar_pathfinding exact_math diamond_graph 1 5 ''time'' =
     Some (Inr (None, Infinity, [1, 3, 2, 4], [(1, 2), (1, 3), (3, 2), (2, 4)]))"
  by (simp add: diamond_graph_def eval_defs)

lemma line_time:
  "astar_pathfinding exact_math line_graph 1 4 ''time'' =
     Some (Inr (Some [1, 2, 3, 4], Finite 35, [1, 2, 3, 4], [(1, 2), (2, 3), (3, 4)]))"
  by (simp add: line_graph_def eval_defs)

lemma line_pollution:
  "astar_pathfinding exact_math line_graph 1 4 ''pollution'' =
     Some (Inr (Some [1, 2, 3, 4], Finite 25, [1, 2, 3, 4], [(1, 2), (2, 3), (3, 4)]))"
  by (simp add: line_graph_def eval_defs)

lemma stats_loop_time:
  "map_sum id (\<lambda>acc. fst (snd acc)) (stats_loop G path (td, tt, tp, rts)) =
     attr_total G ''time'' path tt"
  by (induction G path "(td, tt, tp, rts)" arbitrary: td tt tp rts rule: stats_loop.induct)
     (auto simp: Let_def split: sum.splits)

lemma stats_loop_pollution:
  "map_sum id (\<lambda>acc. fst (snd (snd acc))) (stats_loop G path (td, tt, tp, rts)) =
     attr_total G ''pollution'' path tp"
  by (induction G path "(td, tt, tp, rts)" arbitrary: td tt tp rts rule: stats_loop.induct)
     (auto simp: Let_def split: sum.splits)

lemma stats_time:
  "path_attribute_sum G ''time'' path = Inr c \<Longrightarrow>
     \<exists>rs. calculate_route_stats G path nm = Inr rs \<and> time_minutes rs = c / 60"
  using stats_loop_time [of G path 0 0 0 Map.empty]
  by (cases "stats_loop G path (0, 0, 0, Map.empty)")
     (auto simp: path_attribute_sum_def calculate_route_stats_def)

lemma stats_pollution:
  "path_attribute_sum G ''pollution'' path = Inr c \<Longrightarrow>
     \<exists>rs. calculate_route_stats G path nm = Inr rs \<and> pollution_score rs = c"
  using stats_loop_pollution [of G path 0 0 0 Map.empty]
  by (cases "stats_loop G path (0, 0, 0, Map.empty)")
     (auto simp: path_attribute_sum_def calculate_route_stats_def)

lemma astar_loop_rule_err:
  assumes init: "I st"
    and closed: "\<And>st f g c r. I st \<Longrightarrow> heappop (open_set st) = Inr ((f, g, c), r) \<Longrightarrow>
           c \<in> closed_set st \<Longrightarrow> I (st\<lparr>open_set := r\<rparr>)"
    and expand: "\<And>st f g c r ns st4. I st \<Longrightarrow> heappop (open_set st) = Inr ((f, g, c), r) \<Longrightarrow>
           c \<notin> closed_set st \<Longrightarrow> c \<noteq> end_node \<Longrightarrow> neighbors G c = Inr ns \<Longrightarrow>
           relax_all fm G weight end_coords c g
             (st\<lparr>open_set := r, explored_nodes := explored_nodes st @ [c],
                 closed_set := insert c (closed_set st)\<rparr>) ns = Inr st4 \<Longrightarrow> I st4"
    and empty: "\<And>st. I st \<Longrightarrow> open_set st = [] \<Longrightarrow>
           Q (Some (Inr (None, Infinity, explored_nodes st, explored_edges st)))"
    and goal: "\<And>st f g r. I st \<Longrightarrow> heappop (open_set st) = Inr ((f, g, end_node), r) \<Longrightarrow>
           end_node \<notin> closed_set st \<Longrightarrow>
           Q (case reconstruct (came_from st) end_node [] of
                None \<Rightarrow> None
              | Some path \<Rightarrow>
                  Some (Inr (Some (rev (path @ [start_node])), Finite g,
                             explored_nodes st @ [end_node], explored_edges st)))"
    and err_nb: "\<And>st f g c r err. I st \<Longrightarrow> heappop (open_set st) = Inr ((f, g, c), r) \<Longrightarrow>
           c \<notin> closed_set st \<Longrightarrow> c \<noteq> end_node \<Longrightarrow> neighbors G c = Inl err \<Longrightarrow>
           Q (Some (Inl err))"
    and err_rl: "\<And>st f g c r ns err. I st \<Longrightarrow> heappop (open_set st) = Inr ((f, g, c), r) \<Longrightarrow>
           c \<notin> closed_set st \<Longrightarrow> c \<noteq> end_node \<Longrightarrow> neighbors G c = Inr ns \<Longrightarrow>
           relax_all fm G weight end_coords c g
             (st\<lparr>open_set := r, explored_nodes := explored_nodes st @ [c],
                 closed_set := insert c (closed_set st)\<rparr>) ns = Inl err \<Longrightarrow>
           Q (Some (Inl err))"
  shows "Q (astar_loop fm G weight start_node end_node end_coords st)"
  using init
proof (induction st rule: astar_loop_cases [where fm = fm and G = G and weight = weight
      and end_node = end_node and end_coords = end_coords])
  case (1 st)
  then show ?case using empty by (subst astar_loop_unfold) simp
next
  case (2 st f g c r)
  then show ?case using closed [of st f g c r]
    by (subst astar_loop_unfold) (simp add: heappop_def split: list.splits)
next
  case (3 st f g r)
  have ne: "open_set st \<noteq> []" using 3(1) by (auto simp: heappop_def)
  show ?case using goal [OF 3(3) 3(1) 3(2)] 3(1,2) ne
    by (subst astar_loop_unfold) (simp cong: option.case_cong)
next
  case (4 st f g c r)
  have ne: "open_set st \<noteq> []" using 4(1) by (auto simp: heappop_def)
  show ?case
  proof (cases "neighbors G c")
    case (Inl e)
    then show ?thesis using 4(1,2,3) ne err_nb [OF 4(5) 4(1) 4(2) 4(3) Inl]
      by (subst astar_loop_unfold) simp
  next
    case (Inr ns)
    show ?thesis
    proof (cases "relax_all fm G weight end_coords c g
             (st\<lparr>open_set := r, explored_nodes := explored_nodes st @ [c],
                 closed_set := insert c (closed_set st)\<rparr>) ns")
      case (Inl e)
      then show ?thesis using 4(1,2,3) ne err_rl [OF 4(5) 4(1) 4(2) 4(3) Inr Inl] Inr
        by (subst astar_loop_unfold) simp
    next
      case st4: (Inr st4)
      have "I st4" using expand [OF 4(5) 4(1) 4(2) 4(3) Inr st4] .
      then have "Q (astar_loop fm G weight start_node end_node end_coords st4)"
        using 4(4) [OF Inr st4] by simp
      then show ?thesis using 4(1,2,3) ne Inr st4 by (subst astar_loop_unfold) simp
    qed
  qed
qed

lemma well_formedD:
  assumes "well_formed G" "map_of G c = Some e" "(v, es) \<in> set (adj e)"
  shows "map_of G v \<noteq> None \<and> map_of es 0 \<noteq> None"
proof -
  from assms(2) have "(c, e) \<in> set G" by (rule map_of_SomeD)
  with assms(1) have "\<forall>ves \<in> set (adj e). fst ves \<in> fst ` set G \<and> 0 \<in> fst ` set (snd ves)"
    unfolding well_formed_def list_all_iff by (metis snd_conv)
  with assms(3) have "v \<in> fst ` set G \<and> 0 \<in> fst ` set es"
    by (metis fst_conv snd_conv)
  then show ?thesis by (simp add: map_of_eq_None_iff)
qed

lemma relax_no_error:
  assumes wf: "well_formed G" and c: "map_of G c = Some e" and n: "n \<in> fst ` set (adj e)"
    and hd: "\<And>en. map_of G n = Some en \<Longrightarrow>
               \<exists>d. haversine_distance fm (lat en) (lon en) (fst ec) (snd ec) = Inr d"
  shows "\<exists>st'. relax fm G w ec c g st n = Inr st'"
proof -
  from n obtain es where es: "map_of (adj e) n = Some es"
    by (cases "map_of (adj e) n") (auto simp: map_of_eq_None_iff)
  then have "(n, es) \<in> set (adj e)" by (rule map_of_SomeD)
  from well_formedD [OF wf c this] obtain ed en where
    ed: "map_of es 0 = Some ed" and en: "map_of G n = Some en" by auto
  from hd [OF en] obtain d where
    "haversine_distance fm (lat en) (lon en) (fst ec) (snd ec) = Inr d" by blast
  with c es ed en show ?thesis
    by (simp add: relax_def edge0_def h_score_def node_coords_def Let_def)
qed

lemma relax_all_no_error:
  assumes wf: "well_formed G" and c: "map_of G c = Some e" and ns: "set ns \<subseteq> fst ` set (adj e)"
    and hd: "\<And>n en. map_of G n = Some en \<Longrightarrow>
               \<exists>d. haversine_distance fm (lat en) (lon en) (fst ec) (snd ec) = Inr d"
  shows "\<exists>st'. relax_all fm G w ec c g st ns = Inr st'"
  using ns
proof (induction ns arbitrary: st)
  case Nil
  then show ?case by simp
next
  case (Cons n ns)
  then have "n \<in> fst ` set (adj e)" by simp
  have "\<exists>st1. relax fm G w ec c g st n = Inr st1"
    by (rule relax_no_error [OF wf c \<open>n \<in> fst ` set (adj e)\<close>]) (rule hd)
  then obtain st1 where "relax fm G w ec c g st n = Inr st1" by blast
  moreover from Cons obtain st' where "relax_all fm G w ec c g st1 ns = Inr st'" by fastforce
  ultimately show ?case by simp
qed

lemma haversine_definedD:
  assumes "haversine_defined fm G e" and "node_coords G e = Inr ec" and "map_of G n = Some en"
  shows "\<exists>d. haversine_distance fm (lat en) (lon en) (fst ec) (snd ec) = Inr d"
proof -
  from assms(3) have "(n, en) \<in> set G" by (rule map_of_SomeD)
  with assms(1,2) have
    "case haversine_distance fm (lat en) (lon en) (fst ec) (snd ec) of
       Inl err \<Rightarrow> False | Inr d \<Rightarrow> True"
    unfolding haversine_defined_def list_all_iff by (auto split: sum.splits)
  then show ?thesis by (auto split: sum.splits)
qed

lemma diamond_reach: "reachable diamond_graph 1 v \<Longrightarrow> v \<in> {1, 2, 3, 4}"
  by (induction rule: reachable.induct)
     (auto simp: neighbors_def diamond_graph_def split: if_splits)

lemma key1_reach: "reachable key1_graph 1 v \<Longrightarrow> v \<in> {1, 2}"
  by (induction rule: reachable.induct)
     (auto simp: neighbors_def key1_graph_def split: if_splits)

lemma key1_time:
  "astar_pathfinding exact_math key1_graph 1 3 ''time'' = Some (Inl KeyError)"
  by (simp add: key1_graph_def eval_defs)

section \<open>What the search reads of the graph\<close>

lemma relax_cong:
  assumes nc: "node_coords G' = node_coords G"
    and ec: "\<And>u v. map_sum id (\<lambda>ed. edge_cost ed w) (edge0 G' u v) =
                    map_sum id (\<lambda>ed. edge_cost ed w) (edge0 G u v)"
  shows "relax fm G' w ec c g st n = relax fm G w ec c g st n"
proof -
  have h: "h_score fm G' w ec n = h_score fm G w ec n" by (simp add: h_score_def nc)
  show ?thesis
  proof (cases "edge0 G c n")
    case (Inl err)
    with ec [of c n] have "edge0 G' c n = Inl err" by (cases "edge0 G' c n") simp_all
    with Inl show ?thesis by (simp add: relax_def)
  next
    case (Inr ed)
    with ec [of c n] obtain ed' where "edge0 G' c n = Inr ed'" "edge_cost ed' w = edge_cost ed w"
      by (cases "edge0 G' c n") simp_all
    with Inr h show ?thesis by (simp add: relax_def Let_def cong: if_cong)
  qed
qed

lemma relax_all_cong:
  assumes "node_coords G' = node_coords G"
    and "\<And>u v. map_sum id (\<lambda>ed. edge_cost ed w) (edge0 G' u v) =
                map_sum id (\<lambda>ed. edge_cost ed w) (edge0 G u v)"
  shows "relax_all fm G' w ec c g st ns = relax_all fm G w ec c g st ns"
  by (induction ns arbitrary: st) (simp_all add: relax_cong [OF assms] split: sum.splits)

lemma astar_loop_cong:
  assumes nc: "node_coords G' = node_coords G"
    and nb: "neighbors G' = neighbors G"
    and ec: "\<And>u v. map_sum id (\<lambda>ed. edge_cost ed w) (edge0 G' u v) =
                    map_sum id (\<lambda>ed. edge_cost ed w) (edge0 G u v)"
  shows "astar_loop fm G' w s e ec st = astar_loop fm G w s e ec st"
proof (induction st rule: astar_loop_cases [where fm = fm and G = G and weight = w
      and end_node = e and end_coords = ec])
  case (1 st)
  then show ?case by (simp add: astar_loop_unfold [of _ _ _ _ _ _ st])
next
  case (2 st f g c r)
  then show ?case by (simp add: astar_loop_unfold [of _ _ _ _ _ _ st])
next
  case (3 st f g r)
  then show ?case by (simp add: astar_loop_unfold [of _ _ _ _ _ _ st])
next
  case (4 st f g c r)
  show ?case
  proof (cases "neighbors G c")
    case (Inl err)
    with 4(1,2,3) show ?thesis by (simp add: astar_loop_unfold [of _ _ _ _ _ _ st] nb)
  next
    case (Inr ns)
    show ?thesis
    proof (cases "relax_all fm G w ec c g
             (st\<lparr>open_set := r, explored_nodes := explored_nodes st @ [c],
                 closed_set := insert c (closed_set st)\<rparr>) ns")
      case (Inl err)
      with 4(1,2,3) Inr show ?thesis
        by (simp add: astar_loop_unfold [of _ _ _ _ _ _ st] nb relax_all_cong [OF nc ec])
    next
      case st4: (Inr st4)
      with 4(1,2,3) Inr 4(4) [OF Inr st4] show ?thesis
        by (simp add: astar_loop_unfold [of _ _ _ _ _ _ st] nb relax_all_cong [OF nc ec])
    qed
  qed
qed

lemma astar_pathfinding_cong:
  assumes "node_coords G' = node_coords G" "neighbors G' = neighbors G"
    and "\<And>u v. map_sum id (\<lambda>ed. edge_cost ed w) (edge0 G' u v) =
                map_sum id (\<lambda>ed. edge_cost ed w) (edge0 G u v)"
  shows "astar_pathfinding fm G' s e w = astar_pathfinding fm G s e w"
  by (simp add: astar_pathfinding_def assms(1) astar_loop_cong [OF assms] split: sum.splits)

lemma map_of_map_snd:
  "map_of (map (\<lambda>p. (fst p, f (snd p))) xs) k = map_option f (map_of xs k)"
  by (induction xs) auto

lemma map_of_filter_key: "map_of (filter (\<lambda>ked. fst ked = k) es) k = map_of es k"
  by (induction es) auto

lemma map_of_map_adj:
  "map_of (map_adj f G) n =
     map_option (\<lambda>e. e\<lparr>adj := map (\<lambda>ves. (fst ves, f (snd ves))) (adj e)\<rparr>) (map_of G n)"
  unfolding map_adj_def
  by (rule map_of_map_snd [of "\<lambda>e. e\<lparr>adj := map (\<lambda>ves. (fst ves, f (snd ves))) (adj e)\<rparr>"])

lemma map_adj_coords: "node_coords (map_adj f G) = node_coords G"
  by (rule ext) (simp add: node_coords_def map_of_map_adj split: option.splits)

lemma map_adj_neighbors: "neighbors (map_adj f G) = neighbors G"
  by (rule ext) (simp add: neighbors_def map_of_map_adj comp_def split: option.splits)

lemma map_adj_edge0:
  "edge0 (map_adj f G) u v =
     (case map_of G u of None \<Rightarrow> Inl KeyError
      | Some e \<Rightarrow>
          (case map_of (adj e) v of None \<Rightarrow> Inl KeyError
           | Some es \<Rightarrow>
               (case map_of (f es) 0 of None \<Rightarrow> Inl KeyError | Some ed \<Rightarrow> Inr ed)))"
proof (cases "map_of G u")
  case None
  then show ?thesis by (simp add: edge0_def map_of_map_adj)
next
  case (Some e)
  have "map_of (map (\<lambda>ves. (fst ves, f (snd ves))) (adj e)) v = map_option f (map_of (adj e) v)"
    by (rule map_of_map_snd)
  with Some show ?thesis by (simp add: edge0_def map_of_map_adj split: option.splits)
qed

lemma filter_key0_edge0:
  "edge0 (map_adj (filter (\<lambda>ked. fst ked = 0)) G) u v = edge0 G u v"
  unfolding map_adj_edge0
  by (simp add: map_of_filter_key edge0_def cong: option.case_cong)

lemma key0_only_map_adj:
  assumes "key0_present G"
  shows "key0_only G = map_adj (filter (\<lambda>ked. fst ked = 0)) G"
proof -
  have "filter (\<lambda>ves. snd ves \<noteq> [])
          (map (\<lambda>ves. (fst ves, filter (\<lambda>ked. fst ked = 0) (snd ves))) (adj (snd ne)))
        = map (\<lambda>ves. (fst ves, filter (\<lambda>ked. fst ked = 0) (snd ves))) (adj (snd ne))"
    if "ne \<in> set G" for ne
  proof (rule filter_True, rule ballI)
    fix x
    assume "x \<in> set (map (\<lambda>ves. (fst ves, filter (\<lambda>ked. fst ked = 0) (snd ves))) (adj (snd ne)))"
    then obtain ves where ves: "ves \<in> set (adj (snd ne))"
      and x: "x = (fst ves, filter (\<lambda>ked. fst ked = 0) (snd ves))" by auto
    from assms that ves have "0 \<in> fst ` set (snd ves)"
      unfolding key0_present_def list_all_iff by blast
    then obtain ked where "ked \<in> set (snd ves)" "fst ked = 0" by auto
    then have "filter (\<lambda>ked. fst ked = 0) (snd ves) \<noteq> []"
      unfolding filter_empty_conv by blast
    then show "snd x \<noteq> []" by (simp add: x)
  qed
  then show ?thesis unfolding key0_only_def map_adj_def by (intro map_cong refl) simp
qed

lemma map_of_other_keys:
  "map_of (map (\<lambda>ked. if fst ked = 0 then ked else (fst ked, f (snd ked))) es) (0::nat) =
     map_of es 0"
  by (induction es) auto

lemma map_other_keys_edge0: "edge0 (map_other_keys f G) u v = edge0 G u v"
  unfolding map_other_keys_def map_adj_edge0
  by (simp add: map_of_other_keys edge0_def cong: option.case_cong)

lemma edge_cost_fill: "edge_cost (fill_cost w ed) w = edge_cost ed w"
  by (simp add: fill_cost_def edge_cost_def dict_get_def split: option.splits)

lemma with_default_cost_edge0:
  "edge0 (with_default_cost w G) u v = map_sum id (fill_cost w) (edge0 G u v)"
proof -
  have "map_of (map (\<lambda>ked. (fst ked, fill_cost w (snd ked))) es) 0 =
      map_option (fill_cost w) (map_of es 0)" for es :: "(nat \<times> edge_data) list"
    by (rule map_of_map_snd)
  then show ?thesis
    unfolding with_default_cost_def map_adj_edge0 by (simp add: edge0_def split: option.splits)
qed

lemma parallel_time:
  "astar_pathfinding exact_math parallel_graph 1 2 ''time'' =
     Some (Inr (Some [1, 2], Finite 10, [1, 2], [(1, 2)]))"
  by (simp add: parallel_graph_def eval_defs)

lemma untimed_time:
  "astar_pathfinding exact_math untimed_graph 1 2 ''time'' =
     Some (Inr (Some [1, 2], Finite 1000, [1, 2], [(1, 2)]))"
  by (simp add: untimed_graph_def eval_defs)

lemma road_speed_values:
  "road_speed hw \<in> {1, 10, 15, 20, 25, 30, 40, 60, 80}"
  by (simp add: road_speed_def speed_limits_kmh_def dict_get_def)

lemma diamond_unreachable_pollution:
  "astar_pathfinding exact_math diamond_graph 1 5 ''pollution'' =
     Some (Inr (None, Infinity, [1, 3, 2, 4], [(1, 2), (1, 3), (3, 2), (2, 4)]))"
  by (simp add: diamond_graph_def eval_defs)

lemma get_route_not_found:
  assumes "astar_pathfinding fm G (nearest G slon slat) (nearest G elon elat) ''time'' =
             Some (Inr (tr, tc, tx, te))"
    and "astar_pathfinding fm G (nearest G slon slat) (nearest G elon elat) ''pollution'' =
             Some (Inr (pr, pc, px, pe))"
    and "tr = None \<or> pr = None"
  shows "get_route fm nearest G (Some slat) (Some slon) (Some elat) (Some elon) =
           Some (Inr No_route_found)"
  using assms by (auto simp: get_route_def Let_def falsy_def)

lemma get_route_routes:
  assumes "get_route fm nearest G start_lat start_lon end_lat end_lon = Some (Inr (Routes tp pp))"
  shows "\<exists>slat slon elat elon tr tc tx te pr pc px pe.
           start_lat = Some slat \<and> start_lon = Some slon \<and> end_lat = Some elat \<and>
           end_lon = Some elon \<and>
           astar_pathfinding fm G (nearest G slon slat) (nearest G elon elat) ''time'' =
             Some (Inr (Some tr, tc, tx, te)) \<and>
           astar_pathfinding fm G (nearest G slon slat) (nearest G elon elat) ''pollution'' =
             Some (Inr (Some pr, pc, px, pe)) \<and>
           path_to_coords G tr = Inr (payload_path tp) \<and>
           path_to_coords G pr = Inr (payload_path pp)"
proof -
  from assms obtain slat slon elat elon where
    a: "start_lat = Some slat" "start_lon = Some slon" "end_lat = Some elat"
      "end_lon = Some elon"
    by (auto simp: get_route_def split: if_splits)
  let ?s = "nearest G slon slat" and ?e = "nearest G elon elat"
  from assms a obtain tres where t: "astar_pathfinding fm G ?s ?e ''time'' = Some (Inr tres)"
    by (auto simp: get_route_def Let_def split: option.splits sum.splits)
  from assms a t obtain pres where p: "astar_pathfinding fm G ?s ?e ''pollution'' = Some (Inr pres)"
    by (auto simp: get_route_def Let_def split: option.splits sum.splits)
  obtain tr tc tx te where tres: "tres = (tr, tc, tx, te)" by (cases tres)
  obtain pr pc px pe where pres: "pres = (pr, pc, px, pe)" by (cases pres)
  from assms a t p tres pres have nf: "\<not> falsy tr" "\<not> falsy pr"
    by (auto simp: get_route_def Let_def split: if_splits)
  then obtain trp prp where s: "tr = Some trp" "pr = Some prp" by (auto simp: falsy_def)
  from assms a t p tres pres nf s have
    "path_to_coords G trp = Inr (payload_path tp) \<and> path_to_coords G prp = Inr (payload_path pp)"
    by (auto simp: get_route_def Let_def build_payload_def split: sum.splits)
  with a t p tres pres s show ?thesis by auto
qed


lemma diamond_pollution:
  "astar_pathfinding exact_math diamond_graph 1 4 ''pollution'' =
     Some (Inr (Some [1, 3, 2, 4], Finite 12, [1, 3, 2, 4], [(1, 2), (1, 3), (3, 2), (2, 4)]))"
  by (simp add: diamond_graph_def eval_defs)

lemma diamond_get_route:
  "\<exists>tp pp. get_route exact_math nearest_by_lon diamond_graph (Some 0) (Some 0) (Some 0) (Some 1) =
            Some (Inr (Routes tp pp))"
  apply (simp add: get_route_def nearest_by_lon_def diamond_time diamond_pollution falsy_def
      Let_def)
  apply (simp add: calculate_route_stats_def build_payload_def path_to_coords_def
      edges_to_coords_def edge0_def dict_get_def mk_edge_def node_coords_def
      diamond_graph_def Let_def)
  done

lemma get_route_raises_time:
  assumes "astar_pathfinding fm G (nearest G slon slat) (nearest G elon elat) ''time'' =
             Some (Inl err)"
  shows "get_route fm nearest G (Some slat) (Some slon) (Some elat) (Some elon) = Some (Inl err)"
  using assms by (simp add: get_route_def Let_def)

lemma get_route_raises_pollution:
  assumes "astar_pathfinding fm G (nearest G slon slat) (nearest G elon elat) ''time'' =
             Some (Inr (tr, tc, tx, te))"
    and "astar_pathfinding fm G (nearest G slon slat) (nearest G elon elat) ''pollution'' =
             Some (Inl err)"
  shows "get_route fm nearest G (Some slat) (Some slon) (Some elat) (Some elon) = Some (Inl err)"
  using assms by (simp add: get_route_def Let_def)

lemma mixed_time:
  "astar_pathfinding exact_math mixed_graph 1 4 ''time'' =
     Some (Inr (None, Infinity, [1, 2, 3], [(1, 2), (1, 3)]))"
  by (simp add: mixed_graph_def eval_defs)

lemma mixed_pollution:
  "astar_pathfinding exact_math mixed_graph 1 4 ''pollution'' = Some (Inl KeyError)"
  by (simp add: mixed_graph_def eval_defs)

lemma mixed_get_route:
  "get_route exact_math nearest_by_lon mixed_graph (Some 0) (Some 0) (Some 0) (Some 1) =
     Some (Inl KeyError)"
  by (simp add: get_route_def nearest_by_lon_def mixed_time mixed_pollution Let_def)

section \<open>Order of the frontier\<close>

lemma heappop_mset: "heappop h = Inr (m, r) \<Longrightarrow> mset h = add_mset m (mset r)"
  by (drule heappop_mem) simp

lemma heappop_bag:
  assumes eq: "mset h1 = mset h2" and hp: "heappop h1 = Inr (m, r1)"
  shows "\<exists>r2. heappop h2 = Inr (m, r2) \<and> mset r1 = mset r2"
proof -
  have s: "set h1 = set h2" using eq by (rule mset_eq_setD)
  have m1: "m \<in> set h1" using heappop_mem [OF hp] by simp
  then have "h2 \<noteq> []" using s by auto
  then obtain f g c r2 where hp2: "heappop h2 = Inr ((f, g, c), r2)"
    using heappop_nonempty by blast
  have m2: "(f, g, c) \<in> set h2" using heappop_mem [OF hp2] by simp
  have "m \<le> (f, g, c)" using heappop_least [OF hp] m2 s by simp
  moreover have "(f, g, c) \<le> m" using heappop_least [OF hp2] m1 s by simp
  ultimately have e: "(f, g, c) = m" by (rule order_antisym [symmetric])
  have "add_mset m (mset r1) = add_mset m (mset r2)"
    using heappop_mset [OF hp] heappop_mset [OF hp2] e eq by simp
  then show ?thesis using hp2 e by simp
qed

lemma bag_eq_relax:
  assumes "bag_eq st1 st2"
  shows "rel_sum (=) bag_eq (relax fm G w ec c g st1 n) (relax fm G w ec c g st2 n)"
  using assms
  by (auto simp: relax_def Let_def bag_eq_def heappush_def split: sum.splits option.splits)

lemma bag_eq_relax_all:
  assumes "bag_eq st1 st2"
  shows "rel_sum (=) bag_eq (relax_all fm G w ec c g st1 ns) (relax_all fm G w ec c g st2 ns)"
  using assms
proof (induction ns arbitrary: st1 st2)
  case Nil
  then show ?case by simp
next
  case (Cons n ns)
  from bag_eq_relax [OF Cons.prems, of fm G w ec c g n] show ?case
    by (cases "relax fm G w ec c g st1 n"; cases "relax fm G w ec c g st2 n")
       (auto intro: Cons.IH)
qed


lemma bag_eq_astar_loop:
  "bag_eq st1 st2 \<Longrightarrow> astar_loop fm G w s e ec st1 = astar_loop fm G w s e ec st2"
proof (induction st1 arbitrary: st2 rule: astar_loop_cases [where fm = fm and G = G and weight = w
      and end_node = e and end_coords = ec])
  case (1 st)
  then have "open_set st2 = []" by (simp add: bag_eq_def)
  with 1 show ?case
    by (simp add: astar_loop_unfold [of _ _ _ _ _ _ st] astar_loop_unfold [of _ _ _ _ _ _ st2]
        bag_eq_def)
next
  case (2 st f g c r)
  from heappop_bag [OF _ 2(1), of "open_set st2"] 2(4) obtain r2 where
    hp2: "heappop (open_set st2) = Inr ((f, g, c), r2)" and r: "mset r = mset r2"
    by (auto simp: bag_eq_def)
  have ne: "open_set st \<noteq> []" "open_set st2 \<noteq> []" using 2(1) hp2 by (auto simp: heappop_def)
  have "bag_eq (st\<lparr>open_set := r\<rparr>) (st2\<lparr>open_set := r2\<rparr>)"
    using 2(4) r by (simp add: bag_eq_def)
  from 2(3) [OF this] 2(1,2,4) hp2 ne show ?case
    by (simp add: astar_loop_unfold [of _ _ _ _ _ _ st] astar_loop_unfold [of _ _ _ _ _ _ st2]
        bag_eq_def)
next
  case (3 st f g r)
  from heappop_bag [OF _ 3(1), of "open_set st2"] 3(3) obtain r2 where
    hp2: "heappop (open_set st2) = Inr ((f, g, e), r2)"
    by (auto simp: bag_eq_def)
  have ne: "open_set st \<noteq> []" "open_set st2 \<noteq> []" using 3(1) hp2 by (auto simp: heappop_def)
  from 3 hp2 ne show ?case
    by (simp add: astar_loop_unfold [of _ _ _ _ _ _ st] astar_loop_unfold [of _ _ _ _ _ _ st2]
        bag_eq_def split: option.splits)
next
  case (4 st f g c r)
  from heappop_bag [OF _ 4(1), of "open_set st2"] 4(5) obtain r2 where
    hp2: "heappop (open_set st2) = Inr ((f, g, c), r2)" and r: "mset r = mset r2"
    by (auto simp: bag_eq_def)
  have ne: "open_set st \<noteq> []" "open_set st2 \<noteq> []" using 4(1) hp2 by (auto simp: heappop_def)
  let ?a = "st\<lparr>open_set := r, explored_nodes := explored_nodes st @ [c],
                closed_set := insert c (closed_set st)\<rparr>"
  let ?b = "st2\<lparr>open_set := r2, explored_nodes := explored_nodes st2 @ [c],
                closed_set := insert c (closed_set st2)\<rparr>"
  have ab: "bag_eq ?a ?b" using 4(5) r by (simp add: bag_eq_def)
  have c2: "c \<notin> closed_set st2" using 4(2,5) by (simp add: bag_eq_def)
  show ?case
  proof (cases "neighbors G c")
    case (Inl err)
    with 4(1,2,3) hp2 ne c2 show ?thesis
      by (simp add: astar_loop_unfold [of _ _ _ _ _ _ st] astar_loop_unfold [of _ _ _ _ _ _ st2])
  next
    case (Inr ns)
    note rel = bag_eq_relax_all [OF ab, of fm G w ec c g ns]
    show ?thesis
    proof (cases "relax_all fm G w ec c g ?a ns")
      case (Inl err)
      with rel have "relax_all fm G w ec c g ?b ns = Inl err"
        by (cases "relax_all fm G w ec c g ?b ns") simp_all
      with Inl Inr 4(1,2,3) hp2 ne c2 show ?thesis
        by (simp add: astar_loop_unfold [of _ _ _ _ _ _ st] astar_loop_unfold [of _ _ _ _ _ _ st2])
    next
      case st4: (Inr st4)
      with rel obtain st4' where b: "relax_all fm G w ec c g ?b ns = Inr st4'" "bag_eq st4 st4'"
        by (cases "relax_all fm G w ec c g ?b ns") simp_all
      from 4(4) [OF Inr st4 b(2)] st4 b(1) Inr 4(1,2,3) hp2 ne c2 show ?thesis
        by (simp add: astar_loop_unfold [of _ _ _ _ _ _ st] astar_loop_unfold [of _ _ _ _ _ _ st2])
    qed
  qed
qed


section \<open>Great-circle distance\<close>

lemma atan2_half_angle:
  assumes "0 \<le> a" "a \<le> 1"
  shows "2 * atan2 (sqrt a) (sqrt (1 - a)) = arccos (1 - 2 * a)"
proof -
  define t where "t = arccos (1 - 2 * a) / 2"
  have r: "-1 \<le> 1 - 2 * a" "1 - 2 * a \<le> 1" using assms by auto
  have t0: "0 \<le> t" "t \<le> pi / 2"
    using arccos_lbound [OF r] arccos_ubound [OF r] by (auto simp: t_def)
  have c: "cos (2 * t) = 1 - 2 * a" using r by (simp add: t_def cos_arccos)
  have "cos (2 * t) = 1 - 2 * (sin t)\<^sup>2" by (rule cos_double_sin)
  then have s2: "(sin t)\<^sup>2 = a" using c by simp
  have c2: "(cos t)\<^sup>2 = 1 - a" using s2 sin_cos_squared_add [of t] by simp
  have sn: "0 \<le> sin t" using t0 pi_gt_zero by (intro sin_ge_zero) linarith+
  have cn: "0 \<le> cos t" using t0 by (intro cos_ge_zero) linarith+
  have sq: "sqrt a = sin t" "sqrt (1 - a) = cos t"
    using s2 c2 sn cn by (metis real_sqrt_abs abs_of_nonneg)+
  show ?thesis
  proof (cases "cos t = 0")
    case True
    then have "a = 1" using c2 by simp
    then show ?thesis by (simp add: atan2_def)
  next
    case False
    then have cp: "0 < cos t" using cn by simp
    have "t \<noteq> pi / 2"
    proof
      assume e: "t = pi / 2"
      have "cos t = 0" unfolding e by (rule cos_pi_half)
      with False show False by simp
    qed
    then have "t < pi / 2" "- (pi / 2) < t" using t0 pi_gt_zero by linarith+
    then have "arctan (tan t) = t" by (simp add: arctan_tan)
    then have "atan2 (sin t) (cos t) = t" using cp by (simp add: atan2_def tan_def)
    then show ?thesis by (simp add: sq t_def)
  qed
qed

lemma arccos_triangle:
  assumes x: "-1 \<le> x" "x \<le> 1" and y: "-1 \<le> y" "y \<le> 1" and z: "-1 \<le> z" "z \<le> 1"
    and gram: "(z - x * y)\<^sup>2 \<le> (1 - x\<^sup>2) * (1 - y\<^sup>2)"
  shows "arccos z \<le> arccos x + arccos y"
proof (cases "pi \<le> arccos x + arccos y")
  case True
  then show ?thesis using arccos_ubound [OF z] by linarith
next
  case False
  have lb: "0 \<le> arccos x + arccos y" using arccos_lbound [OF x] arccos_lbound [OF y] by linarith
  have "\<bar>z - x * y\<bar> \<le> sqrt ((1 - x\<^sup>2) * (1 - y\<^sup>2))"
    using gram by (simp add: real_le_rsqrt)
  then have "x * y - sqrt (1 - x\<^sup>2) * sqrt (1 - y\<^sup>2) \<le> z"
    by (simp add: real_sqrt_mult abs_le_iff)
  then have "cos (arccos x + arccos y) \<le> z"
    using x y by (simp add: cos_add cos_arccos sin_arccos)
  then have "arccos z \<le> arccos (cos (arccos x + arccos y))"
    using z by (simp add: arccos_le_mono abs_le_iff)
  also have "\<dots> = arccos x + arccos y" using lb False by (intro arccos_cos) auto
  finally show ?thesis .
qed

lemma cauchy_schwarz3:
  fixes u1 u2 u3 v1 v2 v3 :: real
  shows "(u1 * v1 + u2 * v2 + u3 * v3)\<^sup>2
          \<le> (u1\<^sup>2 + u2\<^sup>2 + u3\<^sup>2) * (v1\<^sup>2 + v2\<^sup>2 + v3\<^sup>2)"
proof -
  have "(u1\<^sup>2 + u2\<^sup>2 + u3\<^sup>2) * (v1\<^sup>2 + v2\<^sup>2 + v3\<^sup>2) - (u1 * v1 + u2 * v2 + u3 * v3)\<^sup>2
        = (u1 * v2 - u2 * v1)\<^sup>2 + (u1 * v3 - u3 * v1)\<^sup>2 + (u2 * v3 - u3 * v2)\<^sup>2"
    by (simp add: power2_eq_square algebra_simps)
  moreover have "0 \<le> (u1 * v2 - u2 * v1)\<^sup>2 + (u1 * v3 - u3 * v1)\<^sup>2 + (u2 * v3 - u3 * v2)\<^sup>2"
    by simp
  ultimately show ?thesis by linarith
qed


lemma unit_vector: "(cos p * cos l)\<^sup>2 + (cos p * sin l)\<^sup>2 + (sin p)\<^sup>2 = (1::real)"
proof -
  have "(cos p * cos l)\<^sup>2 + (cos p * sin l)\<^sup>2 = (cos p)\<^sup>2 * ((sin l)\<^sup>2 + (cos l)\<^sup>2)"
    by (simp only: power_mult_distrib distrib_left add.commute)
  then show ?thesis by simp
qed

lemma sin_half_squared: "(sin (w / 2))\<^sup>2 = (1 - cos w) / (2::real)"
proof -
  have "cos w = cos (2 * (w / 2))" by simp
  also have "\<dots> = 1 - 2 * (sin (w / 2))\<^sup>2" by (rule cos_double_sin)
  finally show ?thesis by simp
qed

lemma cos_angle_dot:
  "cos_angle p1 l1 p2 l2 =
     (cos p1 * cos l1) * (cos p2 * cos l2) + (cos p1 * sin l1) * (cos p2 * sin l2)
       + sin p1 * sin p2"
  by (simp add: cos_angle_def cos_diff algebra_simps)

lemma cos_angle_bounds: "-1 \<le> cos_angle p1 l1 p2 l2 \<and> cos_angle p1 l1 p2 l2 \<le> 1"
proof -
  have "(cos_angle p1 l1 p2 l2)\<^sup>2 \<le> 1"
    using cauchy_schwarz3 [of "cos p1 * cos l1" "cos p2 * cos l2" "cos p1 * sin l1"
        "cos p2 * sin l2" "sin p1" "sin p2"]
    by (simp only: cos_angle_dot unit_vector mult_1)
  then have "\<bar>cos_angle p1 l1 p2 l2\<bar> \<le> 1" by (simp add: abs_square_le_1)
  then show ?thesis by (simp add: abs_le_iff)
qed

lemma gram3:
  fixes p1 p2 p3 q1 q2 q3 r1 r2 r3 :: real
  assumes p: "p1\<^sup>2 + p2\<^sup>2 + p3\<^sup>2 = 1" and q: "q1\<^sup>2 + q2\<^sup>2 + q3\<^sup>2 = 1"
    and r: "r1\<^sup>2 + r2\<^sup>2 + r3\<^sup>2 = 1"
    and x: "x = p1 * q1 + p2 * q2 + p3 * q3" and y: "y = q1 * r1 + q2 * r2 + q3 * r3"
    and z: "z = p1 * r1 + p2 * r2 + p3 * r3"
  shows "(z - x * y)\<^sup>2 \<le> (1 - x\<^sup>2) * (1 - y\<^sup>2)"
proof -
  define u1 u2 u3 where "u1 = p1 - x * q1" and "u2 = p2 - x * q2" and "u3 = p3 - x * q3"
  define v1 v2 v3 where "v1 = r1 - y * q1" and "v2 = r2 - y * q2" and "v3 = r3 - y * q3"
  have "u1\<^sup>2 + u2\<^sup>2 + u3\<^sup>2
        = (p1\<^sup>2 + p2\<^sup>2 + p3\<^sup>2) - 2 * x * (p1 * q1 + p2 * q2 + p3 * q3)
          + x\<^sup>2 * (q1\<^sup>2 + q2\<^sup>2 + q3\<^sup>2)"
    unfolding u1_def u2_def u3_def by (simp add: power2_eq_square algebra_simps)
  then have uu: "u1\<^sup>2 + u2\<^sup>2 + u3\<^sup>2 = 1 - x\<^sup>2"
    unfolding p q x [symmetric] by (simp add: power2_eq_square)
  have "v1\<^sup>2 + v2\<^sup>2 + v3\<^sup>2
        = (r1\<^sup>2 + r2\<^sup>2 + r3\<^sup>2) - 2 * y * (q1 * r1 + q2 * r2 + q3 * r3)
          + y\<^sup>2 * (q1\<^sup>2 + q2\<^sup>2 + q3\<^sup>2)"
    unfolding v1_def v2_def v3_def by (simp add: power2_eq_square algebra_simps)
  then have vv: "v1\<^sup>2 + v2\<^sup>2 + v3\<^sup>2 = 1 - y\<^sup>2"
    unfolding r q y [symmetric] by (simp add: power2_eq_square)
  have "u1 * v1 + u2 * v2 + u3 * v3
        = (p1 * r1 + p2 * r2 + p3 * r3) - y * (p1 * q1 + p2 * q2 + p3 * q3)
          - x * (q1 * r1 + q2 * r2 + q3 * r3) + x * y * (q1\<^sup>2 + q2\<^sup>2 + q3\<^sup>2)"
    unfolding u1_def u2_def u3_def v1_def v2_def v3_def
    by (simp add: power2_eq_square algebra_simps)
  then have uv: "u1 * v1 + u2 * v2 + u3 * v3 = z - x * y"
    unfolding q x [symmetric] y [symmetric] z [symmetric] by (simp add: algebra_simps)
  show ?thesis using cauchy_schwarz3 [of u1 v1 u2 v2 u3 v3] by (simp only: uu vv uv)
qed

lemma cos_angle_triangle:
  "arccos (cos_angle p1 l1 p3 l3)
     \<le> arccos (cos_angle p1 l1 p2 l2) + arccos (cos_angle p2 l2 p3 l3)"
proof (rule arccos_triangle)
  show "(cos_angle p1 l1 p3 l3 - cos_angle p1 l1 p2 l2 * cos_angle p2 l2 p3 l3)\<^sup>2
        \<le> (1 - (cos_angle p1 l1 p2 l2)\<^sup>2) * (1 - (cos_angle p2 l2 p3 l3)\<^sup>2)"
    by (rule gram3 [OF unit_vector [of p1 l1] unit_vector [of p2 l2] unit_vector [of p3 l3]
          cos_angle_dot cos_angle_dot cos_angle_dot])
qed (simp_all add: cos_angle_bounds)

lemma haversine_arccos:
  "haversine_distance exact_math lat1 lon1 lat2 lon2 =
     Inr (6371000 * arccos (cos_angle (radians lat1) (radians lon1) (radians lat2) (radians lon2)))"
proof -
  define p1 p2 dl where "p1 = radians lat1" and "p2 = radians lat2"
    and "dl = radians lon2 - radians lon1"
  define a where "a = (sin ((p2 - p1) / 2))\<^sup>2 + cos p1 * cos p2 * (sin (dl / 2))\<^sup>2"
  define c where "c = cos_angle p1 (radians lon1) p2 (radians lon2)"
  have lin: "radians (lat2 - lat1) = p2 - p1" "radians (lon2 - lon1) = dl"
    by (simp_all add: radians_def p1_def p2_def dl_def algebra_simps diff_divide_distrib)
  note h1 = sin_half_squared [of "p2 - p1"]
  note h2 = sin_half_squared [of dl]
  have ac: "a = (1 - c) / 2"
    unfolding a_def h1 h2 c_def cos_angle_def dl_def [symmetric]
    by (simp add: cos_diff field_simps)
  have b: "-1 \<le> c" "c \<le> 1" using cos_angle_bounds by (simp_all add: c_def)
  then have a01: "0 \<le> a" "a \<le> 1" by (simp_all add: ac)
  then have "2 * atan2 (sqrt a) (sqrt (1 - a)) = arccos (1 - 2 * a)" by (rule atan2_half_angle)
  also have "1 - 2 * a = c" by (simp add: ac field_simps)
  finally have e: "2 * atan2 (sqrt a) (sqrt (1 - a)) = arccos c" .
  have "haversine_distance exact_math lat1 lon1 lat2 lon2 =
      Inr (2 * 6371000 * atan2 (sqrt a) (sqrt (1 - a)))"
    unfolding haversine_distance_def Let_def exact_math_simps lin power2_eq_square [symmetric]
      p1_def [symmetric] p2_def [symmetric] a_def [symmetric]
    using a01 by (simp add: py_sqrt_def)
  also have "2 * 6371000 * atan2 (sqrt a) (sqrt (1 - a)) = 6371000 * arccos c"
    using e by simp
  finally show ?thesis by (simp add: c_def p1_def p2_def)
qed

lemma haversine_exact:
  "\<exists>d. haversine_distance exact_math lat1 lon1 lat2 lon2 = Inr d \<and> 0 \<le> d"
  using cos_angle_bounds by (simp add: haversine_arccos arccos_lbound)

lemma haversine_triangle:
  assumes "haversine_distance exact_math lat1 lon1 lat3 lon3 = Inr d13"
    and "haversine_distance exact_math lat1 lon1 lat2 lon2 = Inr d12"
    and "haversine_distance exact_math lat2 lon2 lat3 lon3 = Inr d23"
  shows "d13 \<le> d12 + d23"
  using cos_angle_triangle [of "radians lat1" "radians lon1" "radians lat3" "radians lon3"
      "radians lat2" "radians lon2"] assms
  by (auto simp: haversine_arccos)

section \<open>The weights of an edge\<close>

lemma map_err_set:
  "map_err f xs = Inr ys \<Longrightarrow> y \<in> set ys \<Longrightarrow> \<exists>x \<in> set xs. f x = Inr y"
  by (induction xs arbitrary: ys) (auto split: sum.splits)

lemma edges_iff:
  "(u, v, k, ed) \<in> set (graph_edges G) \<longleftrightarrow>
     (\<exists>e es. (u, e) \<in> set G \<and> (v, es) \<in> set (adj e) \<and> (k, ed) \<in> set es)"
  by (force simp: graph_edges_def)

lemma map_sum_Inr: "map_sum f g x = Inr y \<longleftrightarrow> (\<exists>z. x = Inr z \<and> y = g z)"
  by (cases x) auto

lemma weighted_edge:
  assumes w: "add_pollution_weights G = Inr G'" and e: "(u, v, k, ed') \<in> set (graph_edges G')"
  shows "\<exists>ed. weigh_edge G u v ed = Inr ed'"
proof -
  let ?f3 = "\<lambda>u v ked. map_sum id (\<lambda>ed. (fst ked, ed)) (weigh_edge G u v (snd ked))"
  let ?f2 = "\<lambda>u ves. map_sum id (\<lambda>es. (fst ves, es)) (map_err (?f3 u (fst ves)) (snd ves))"
  let ?f1 = "\<lambda>ne. map_sum id (\<lambda>a. (fst ne, (snd ne)\<lparr>adj := a\<rparr>))
                    (map_err (?f2 (fst ne)) (adj (snd ne)))"
  from e obtain e' es' where m: "(u, e') \<in> set G'" "(v, es') \<in> set (adj e')" "(k, ed') \<in> set es'"
    unfolding edges_iff by blast
  have w': "map_err ?f1 G = Inr G'" using w by (simp add: add_pollution_weights_def)
  from map_err_set [OF w' m(1)] obtain ne where "?f1 ne = Inr (u, e')" by blast
  then obtain a where a: "map_err (?f2 (fst ne)) (adj (snd ne)) = Inr a" "u = fst ne"
    "e' = (snd ne)\<lparr>adj := a\<rparr>"
    by (auto simp: map_sum_Inr)
  have "(v, es') \<in> set a" using m(2) a(3) by simp
  from map_err_set [OF a(1) this] obtain ves where "?f2 (fst ne) ves = Inr (v, es')" by blast
  then have b: "map_err (?f3 (fst ne) (fst ves)) (snd ves) = Inr es'" "v = fst ves"
    by (auto simp: map_sum_Inr)
  from map_err_set [OF b(1) m(3)] obtain ked where "?f3 (fst ne) (fst ves) ked = Inr (k, ed')"
    by blast
  then have "weigh_edge G (fst ne) (fst ves) (snd ked) = Inr ed'" by (auto simp: map_sum_Inr)
  then show ?thesis using a(2) b(2) by auto
qed

lemma road_speed_bounds: "0 < road_speed hw \<and> road_speed hw \<le> 80"
  by (simp add: road_speed_def speed_limits_kmh_def dict_get_def)

lemma pollution_multiplier_bound: "1 \<le> pollution_multiplier hw"
  by (simp add: pollution_multiplier_def POLLUTION_FACTORS_def dict_get_def)

lemma intersection_penalty_bound: "1 \<le> intersection_penalty G u v"
  by (simp add: intersection_penalty_def)

lemma time_seconds_bound:
  assumes "0 \<le> len"
  shows "len / MAX_SPEED_MPS exact_math \<le> time_seconds len hw"
proof -
  have s: "0 < road_speed hw" "road_speed hw \<le> 80" using road_speed_bounds by simp_all
  have "len / MAX_SPEED_MPS exact_math = len * 3.6 / 80" by (simp add: MAX_SPEED_MPS_def)
  also have "\<dots> \<le> len * 3.6 / road_speed hw"
    using s assms by (intro divide_left_mono) (simp_all)
  also have "\<dots> = time_seconds len hw" by (simp add: time_seconds_def)
  finally show ?thesis .
qed

lemma pollution_bound:
  assumes "0 \<le> len"
  shows "len \<le> len * pollution_multiplier hw * intersection_penalty G u v"
proof -
  have "len * 1 * 1 \<le> len * pollution_multiplier hw * intersection_penalty G u v"
    using assms pollution_multiplier_bound [of hw] intersection_penalty_bound [of G u v]
    by (intro mult_mono) simp_all
  then show ?thesis by simp
qed

lemma weigh_edge_cost:
  assumes "weigh_edge G u v ed = Inr ed'" and "0 \<le> dict_get (attrs ed') ''length'' 100"
  shows "dict_get (attrs ed') ''length'' 100 / MAX_SPEED_MPS exact_math \<le> edge_cost ed' ''time''
       \<and> dict_get (attrs ed') ''length'' 100 \<le> edge_cost ed' ''pollution''"
proof -
  from assms(1) obtain hw where hw: "highway_of ed = Inr hw"
    by (auto simp: weigh_edge_def split: sum.splits)
  define len where "len = dict_get (attrs ed) ''length'' 100"
  from assms(1) hw have a: "attrs ed' =
      (attrs ed)(''pollution'' \<mapsto> len * pollution_multiplier hw * intersection_penalty G u v,
                 ''pollution_multiplier'' \<mapsto> pollution_multiplier hw,
                 ''time'' \<mapsto> time_seconds len hw)"
    by (auto simp: weigh_edge_def Let_def len_def)
  have l: "dict_get (attrs ed') ''length'' 100 = len" by (simp add: a dict_get_def len_def)
  have t: "edge_cost ed' ''time'' = time_seconds len hw" by (simp add: a edge_cost_def dict_get_def)
  have p: "edge_cost ed' ''pollution'' = len * pollution_multiplier hw * intersection_penalty G u v"
    by (simp add: a edge_cost_def dict_get_def)
  from assms(2) have "0 \<le> len" by (simp add: l)
  then show ?thesis unfolding l t p using time_seconds_bound pollution_bound by simp
qed


lemma lengths_coverD:
  assumes "lengths_cover G" and "e \<in> set (graph_edges G)"
  shows "\<exists>cu cv d. node_coords G (fst e) = Inr cu \<and> node_coords G (fst (snd e)) = Inr cv
           \<and> haversine_distance exact_math (fst cu) (snd cu) (fst cv) (snd cv) = Inr d
           \<and> d \<le> dict_get (attrs (snd (snd (snd e)))) ''length'' 100"
proof -
  from assms have "case node_coords G (fst e) of
          Inl err \<Rightarrow> False
        | Inr cu \<Rightarrow>
            (case node_coords G (fst (snd e)) of
               Inl err \<Rightarrow> False
             | Inr cv \<Rightarrow>
                 (case haversine_distance exact_math (fst cu) (snd cu) (fst cv) (snd cv) of
                    Inl err \<Rightarrow> False
                  | Inr d \<Rightarrow> d \<le> dict_get (attrs (snd (snd (snd e)))) ''length'' 100))"
    unfolding lengths_cover_def list_all_iff by blast
  then show ?thesis by (auto split: sum.splits)
qed

section \<open>Trivial path\<close>

text \<open>
  Claim C5. For every node \<open>n\<close> of the graph and every criterion, the search from \<open>n\<close> to
  \<open>n\<close> returns the path \<open>[n]\<close> with total cost 0 (having explored \<open>n\<close> alone and relaxed
  no edge), and \<open>calculate_route_stats\<close> on that path returns zero distance, zero time,
  zero pollution, zero segments and an empty road-type histogram, without raising.
\<close>

theorem trivial_path:
  assumes "n \<in> fst ` set G"
  shows "astar_pathfinding fm G n n weight = Some (Inr (Some [n], Finite 0, [n], []))
         \<and> calculate_route_stats G [n] route_name =
             Inr \<lparr>name = route_name, distance_km = 0, time_minutes = 0,
                  pollution_score = 0, num_segments = 0, road_types = Map.empty\<rparr>"
proof -
  from assms obtain e where "map_of G n = Some e"
    by (cases "map_of G n") (auto simp: map_of_eq_None_iff)
  then have "astar_pathfinding fm G n n weight = Some (Inr (Some [n], Finite 0, [n], []))"
    by (simp add: astar_pathfinding_def node_coords_def init_state_def astar_loop_unfold
        heappop_def reconstruct.simps)
  moreover have "calculate_route_stats G [n] route_name =
      Inr \<lparr>name = route_name, distance_km = 0, time_minutes = 0,
           pollution_score = 0, num_segments = 0, road_types = Map.empty\<rparr>"
    by (simp add: calculate_route_stats_def)
  ultimately show ?thesis by simp
qed

theorem trivial_path_witness:
  "(3::int) \<in> fst ` set line_graph
   \<and> astar_pathfinding exact_math line_graph 3 3 ''time'' = Some (Inr (Some [3], Finite 0, [3], []))
   \<and> calculate_route_stats line_graph [3] ''Fastest Route'' =
       Inr \<lparr>name = ''Fastest Route'', distance_km = 0, time_minutes = 0,
            pollution_score = 0, num_segments = 0, road_types = Map.empty\<rparr>"
proof -
  have h: "(3::int) \<in> fst ` set line_graph" by (simp add: line_graph_def)
  show ?thesis using h trivial_path [OF h, of exact_math "''time''" "''Fastest Route''"] by simp
qed

section \<open>No-duplicate exploration\<close>

text \<open>
  Claim C6. Whenever \<open>astar_pathfinding\<close> returns, with a path or without one, the
  explored-nodes trace it returns contains no node twice.
\<close>

theorem explored_nodes_distinct:
  assumes "astar_pathfinding fm G start_node end_node weight =
             Some (Inr (path, total_cost, explored, edges))"
  shows "distinct explored"
  using astar_result [OF assms] by simp

theorem explored_nodes_distinct_witness:
  "astar_pathfinding exact_math diamond_graph 1 5 ''time'' =
     Some (Inr (None, Infinity, [1, 3, 2, 4], [(1, 2), (1, 3), (3, 2), (2, 4)]))
   \<and> distinct [1, 3, 2, 4 :: node]"
  using explored_nodes_distinct [OF diamond_unreachable] diamond_unreachable by simp

section \<open>The returned path\<close>

text \<open>
  Claim C10. Whenever \<open>astar_pathfinding\<close> returns a path, the path is not empty, its first
  element is the start node, its last element is the goal, and every consecutive pair of
  it is joined by an edge of the graph (the one stored under key 0). This holds for every
  graph, whatever the sign of its edge costs.
\<close>

theorem path_connects:
  assumes "astar_pathfinding fm G start_node end_node weight =
             Some (Inr (Some path, total_cost, explored, edges))"
  shows "path \<noteq> [] \<and> hd path = start_node \<and> last path = end_node
         \<and> (\<forall>i. Suc i < length path \<longrightarrow>
               (\<exists>ed. edge0 G (path ! i) (path ! Suc i) = Inr ed))"
proof -
  from astar_result [OF assms] obtain ec st g where
    inv: "search_inv fm G weight start_node ec st" and
    tp: "tree_path (came_from st) start_node end_node path" by auto
  have "\<exists>ed. edge0 G (path ! i) (path ! Suc i) = Inr ed" if "Suc i < length path" for i
    using inv_parent [OF inv tree_path_links [OF tp that]] by blast
  then show ?thesis using tree_path_ends [OF tp] by blast
qed

theorem path_connects_witness:
  "astar_pathfinding exact_math diamond_graph 1 4 ''time'' =
     Some (Inr (Some [1, 3, 2, 4], Finite 6, [1, 3, 2, 4], [(1, 2), (1, 3), (3, 2), (2, 4)]))
   \<and> hd [1, 3, 2, 4] = (1 :: node) \<and> last [1, 3, 2, 4] = (4 :: node)
   \<and> (\<exists>ed. edge0 diamond_graph 1 3 = Inr ed)
   \<and> (\<exists>ed. edge0 diamond_graph 3 2 = Inr ed)
   \<and> (\<exists>ed. edge0 diamond_graph 2 4 = Inr ed)"
proof -
  have r: "\<forall>i. Suc i < length [1, 3, 2, 4 :: node] \<longrightarrow>
      (\<exists>ed. edge0 diamond_graph ([1, 3, 2, 4] ! i) ([1, 3, 2, 4] ! Suc i) = Inr ed)"
    using path_connects [OF diamond_time] by blast
  have "\<exists>ed. edge0 diamond_graph 1 3 = Inr ed" using r [rule_format, of 0] by simp
  moreover have "\<exists>ed. edge0 diamond_graph 3 2 = Inr ed" using r [rule_format, of 1] by simp
  moreover have "\<exists>ed. edge0 diamond_graph 2 4 = Inr ed" using r [rule_format, of 2] by simp
  ultimately show ?thesis using diamond_time by simp
qed

section \<open>Cost consistency\<close>

text \<open>
  Claim C3. Whenever \<open>astar_pathfinding\<close> returns a path, and every edge the path
  traverses (the key-0 edge of each consecutive pair, which is the edge the search
  used) carries the attribute of the chosen criterion, the returned total cost is the
  sum of that attribute over the consecutive edges of the path. For the two criteria
  of the system it is what \<open>calculate_route_stats\<close> recomputes: sixty times the minutes
  for \<open>time\<close>, the pollution score for \<open>pollution\<close>.
\<close>

theorem cost_consistency:
  assumes "astar_pathfinding fm G start_node end_node weight =
             Some (Inr (Some path, total_cost, explored, edges))"
    and "\<forall>i ed. Suc i < length path \<longrightarrow>
           edge0 G (path ! i) (path ! Suc i) = Inr ed \<longrightarrow> attrs ed weight \<noteq> None"
  shows "\<exists>c. total_cost = Finite c \<and> path_attribute_sum G weight path = Inr c
           \<and> (weight = ''time'' \<longrightarrow>
                (\<exists>rs. calculate_route_stats G path route_name = Inr rs
                      \<and> time_minutes rs = c / 60))
           \<and> (weight = ''pollution'' \<longrightarrow>
                (\<exists>rs. calculate_route_stats G path route_name = Inr rs
                      \<and> pollution_score rs = c))"
proof -
  from astar_result [OF assms(1)] obtain ec st g where
    inv: "search_inv fm G weight start_node ec st" and
    tp: "tree_path (came_from st) start_node end_node path" and
    g: "g_scores st end_node = Some g" "total_cost = Finite g" by auto
  have par: "\<exists>ed gp. edge0 G p m = Inr ed \<and> g_scores st p = Some gp \<and>
      g_scores st m = Some (gp + edge_cost ed weight)" if "came_from st m = Some p" for m p
    using inv_parent [OF inv that] by simp
  have g0: "g_scores st start_node = Some 0" using inv_g0 [OF inv] by simp
  from tree_path_cost [OF tp par g0 assms(2)] g
  have s: "path_attribute_sum G weight path = Inr g" by (simp add: path_attribute_sum_def)
  show ?thesis using g(2) s stats_time [of G path g route_name]
      stats_pollution [of G path g route_name] by auto
qed

theorem cost_consistency_witness:
  "astar_pathfinding exact_math line_graph 1 4 ''pollution'' =
     Some (Inr (Some [1, 2, 3, 4], Finite 25, [1, 2, 3, 4], [(1, 2), (2, 3), (3, 4)]))
   \<and> map_sum id (\<lambda>ed. attrs ed ''pollution'') (edge0 line_graph 1 2) = Inr (Some 5)
   \<and> map_sum id (\<lambda>ed. attrs ed ''pollution'') (edge0 line_graph 2 3) = Inr (Some 15)
   \<and> map_sum id (\<lambda>ed. attrs ed ''pollution'') (edge0 line_graph 3 4) = Inr (Some 5)
   \<and> path_attribute_sum line_graph ''pollution'' [1, 2, 3, 4] = Inr 25
   \<and> (\<exists>rs. calculate_route_stats line_graph [1, 2, 3, 4] ''Greenest Route'' = Inr rs
           \<and> pollution_score rs = 25)"
proof -
  have h: "\<forall>i ed. Suc i < length [1, 2, 3, 4 :: node] \<longrightarrow>
         edge0 line_graph ([1, 2, 3, 4] ! i) ([1, 2, 3, 4] ! Suc i) = Inr ed \<longrightarrow>
         attrs ed ''pollution'' \<noteq> None"
  proof (intro allI impI)
    fix i ed
    assume "Suc i < length [1, 2, 3, 4 :: node]"
      and e: "edge0 line_graph ([1, 2, 3, 4] ! i) ([1, 2, 3, 4] ! Suc i) = Inr ed"
    then have "i = 0 \<or> i = 1 \<or> i = 2" by auto
    with e show "attrs ed ''pollution'' \<noteq> None"
      by (auto simp: line_graph_def edge0_def mk_edge_def)
  qed
  have e: "map_sum id (\<lambda>ed. attrs ed ''pollution'') (edge0 line_graph 1 2) = Inr (Some 5)"
    "map_sum id (\<lambda>ed. attrs ed ''pollution'') (edge0 line_graph 2 3) = Inr (Some 15)"
    "map_sum id (\<lambda>ed. attrs ed ''pollution'') (edge0 line_graph 3 4) = Inr (Some 5)"
    by (simp_all add: line_graph_def edge0_def mk_edge_def)
  show ?thesis
    using cost_consistency [OF line_pollution h, of "''Greenest Route''"] line_pollution e
    by simp
qed

section \<open>Unreachable target\<close>

text \<open>
  Claim C4, as the specification states it, fails: not every graph lets the search return.
  In the graph of three nodes whose one edge, from 1 to 2, is stored under key 1, node 3
  cannot be reached from node 1, and the search from 1 to 3 raises \<open>KeyError\<close> when it reads
  \<open>G[1][2][0]\<close>.
\<close>

theorem unreachable_target_counterexample:
  "(1 :: node) \<in> fst ` set key1_graph \<and> (3 :: node) \<in> fst ` set key1_graph
   \<and> \<not> reachable key1_graph 1 3
   \<and> astar_pathfinding exact_math key1_graph 1 3 ''time'' = Some (Inl KeyError)"
proof -
  have "\<not> reachable key1_graph 1 3" using key1_reach [of 3] by auto
  then show ?thesis using key1_time by (simp add: key1_graph_def)
qed

text \<open>
  Claim C4, amended. On a graph that contains the start and the goal, in which every
  neighbour listed in an adjacency is a node of the graph joined by an edge stored under
  key 0, and on which the haversine distance from every node to the goal is computed
  without a \<open>ValueError\<close>: when no directed path leads from the start to the goal,
  \<open>astar_pathfinding\<close> returns (the frontier empties, no exception is raised, the loop
  ends) the tuple whose path is \<open>None\<close> and whose total cost is positive infinity.
\<close>

theorem unreachable_target:
  assumes s: "start_node \<in> fst ` set G" and e: "end_node \<in> fst ` set G"
    and wf: "well_formed G"
    and hd: "haversine_defined fm G end_node"
    and un: "\<not> reachable G start_node end_node"
  shows "\<exists>explored edges.
           astar_pathfinding fm G start_node end_node weight =
             Some (Inr (None, Infinity, explored, edges))"
proof -
  from e obtain ee where "map_of G end_node = Some ee"
    by (cases "map_of G end_node") (auto simp: map_of_eq_None_iff)
  then obtain ec where ec: "node_coords G end_node = Inr ec" by (simp add: node_coords_def)
  have hd': "\<exists>d. haversine_distance fm (lat en) (lon en) (fst ec) (snd ec) = Inr d"
    if "map_of G n = Some en" for n en
    using haversine_definedD [OF hd ec that] .
  define I :: "search_state \<Rightarrow> bool" where "I st \<longleftrightarrow>
    (\<forall>n \<in> frontier_nodes (open_set st). reachable G start_node n \<and> map_of G n \<noteq> None)" for st
  define Q :: "(py_error + search_result) option \<Rightarrow> bool" where
    "Q r \<longleftrightarrow> (\<exists>explored edges. r = Some (Inr (None, Infinity, explored, edges)))" for r
  have "Q (astar_loop fm G weight start_node end_node ec (init_state start_node))"
  proof (rule astar_loop_rule_err [where I = I])
    show "I (init_state start_node)"
      using s by (auto simp: I_def init_state_def frontier_nodes_def map_of_eq_None_iff
          intro: reachable.start)
  next
    fix st f g c r
    assume "I st" and hp: "heappop (open_set st) = Inr ((f, g, c), r)"
    then show "I (st\<lparr>open_set := r\<rparr>)" using heappop_frontier [OF hp] by (auto simp: I_def)
  next
    fix st f g c r ns st4
    assume i: "I st" and hp: "heappop (open_set st) = Inr ((f, g, c), r)"
      and nb: "neighbors G c = Inr ns"
      and ra: "relax_all fm G weight ec c g
             (st\<lparr>open_set := r, explored_nodes := explored_nodes st @ [c],
                 closed_set := insert c (closed_set st)\<rparr>) ns = Inr st4"
    have "(f, g, c) \<in> set (open_set st)" using heappop_mem [OF hp] by simp
    then have "c \<in> frontier_nodes (open_set st)" by (force simp: frontier_nodes_def)
    with i have rc: "reachable G start_node c" and "map_of G c \<noteq> None" by (auto simp: I_def)
    then obtain en where en: "map_of G c = Some en" by auto
    with nb have ns: "ns = map fst (adj en)" by (simp add: neighbors_def)
    have "reachable G start_node n \<and> map_of G n \<noteq> None" if "n \<in> set ns" for n
    proof -
      from that ns obtain es where "(n, es) \<in> set (adj en)" by auto
      from well_formedD [OF wf en this] reachable.edge [OF rc nb that] show ?thesis by simp
    qed
    moreover have "frontier_nodes (open_set st4) \<subseteq> set ns \<union> frontier_nodes r"
      using relax_all_frontier [OF ra] by simp
    moreover have "frontier_nodes r \<subseteq> frontier_nodes (open_set st)"
      by (rule heappop_frontier [OF hp])
    ultimately show "I st4" using i unfolding I_def by blast
  next
    fix st
    show "Q (Some (Inr (None, Infinity, explored_nodes st, explored_edges st)))"
      by (simp add: Q_def)
  next
    fix st f g r
    assume i: "I st" and hp: "heappop (open_set st) = Inr ((f, g, end_node), r)"
    have "(f, g, end_node) \<in> set (open_set st)" using heappop_mem [OF hp] by simp
    then have "end_node \<in> frontier_nodes (open_set st)" by (force simp: frontier_nodes_def)
    with i un show "Q (case reconstruct (came_from st) end_node [] of
                None \<Rightarrow> None
              | Some path \<Rightarrow>
                  Some (Inr (Some (rev (path @ [start_node])), Finite g,
                             explored_nodes st @ [end_node], explored_edges st)))"
      by (auto simp: I_def)
  next
    fix st f g c r err
    assume i: "I st" and hp: "heappop (open_set st) = Inr ((f, g, c), r)"
      and nb: "neighbors G c = Inl err"
    have "(f, g, c) \<in> set (open_set st)" using heappop_mem [OF hp] by simp
    then have "c \<in> frontier_nodes (open_set st)" by (force simp: frontier_nodes_def)
    with i have "map_of G c \<noteq> None" by (auto simp: I_def)
    with nb show "Q (Some (Inl err))" by (auto simp: neighbors_def)
  next
    fix st f g c r ns err
    assume i: "I st" and hp: "heappop (open_set st) = Inr ((f, g, c), r)"
      and nb: "neighbors G c = Inr ns"
      and ra: "relax_all fm G weight ec c g
             (st\<lparr>open_set := r, explored_nodes := explored_nodes st @ [c],
                 closed_set := insert c (closed_set st)\<rparr>) ns = Inl err"
    have "(f, g, c) \<in> set (open_set st)" using heappop_mem [OF hp] by simp
    then have "c \<in> frontier_nodes (open_set st)" by (force simp: frontier_nodes_def)
    with i obtain en where en: "map_of G c = Some en" by (auto simp: I_def)
    with nb have "set ns \<subseteq> fst ` set (adj en)" by (auto simp: neighbors_def)
    have "\<exists>st'. relax_all fm G weight ec c g
             (st\<lparr>open_set := r, explored_nodes := explored_nodes st @ [c],
                 closed_set := insert c (closed_set st)\<rparr>) ns = Inr st'"
      by (rule relax_all_no_error [OF wf en \<open>set ns \<subseteq> fst ` set (adj en)\<close>]) (rule hd')
    with ra show "Q (Some (Inl err))" by simp
  qed
  then show ?thesis using ec by (simp add: Q_def astar_pathfinding_def)
qed

theorem unreachable_target_witness:
  "(1 :: node) \<in> fst ` set diamond_graph \<and> (5 :: node) \<in> fst ` set diamond_graph
   \<and> well_formed diamond_graph \<and> haversine_defined exact_math diamond_graph 5
   \<and> \<not> reachable diamond_graph 1 5
   \<and> astar_pathfinding exact_math diamond_graph 1 5 ''time'' =
       Some (Inr (None, Infinity, [1, 3, 2, 4], [(1, 2), (1, 3), (3, 2), (2, 4)]))"
proof -
  have s: "(1 :: node) \<in> fst ` set diamond_graph" and e: "(5 :: node) \<in> fst ` set diamond_graph"
    by (simp_all add: diamond_graph_def)
  have wf: "well_formed diamond_graph" by (simp add: well_formed_def diamond_graph_def)
  have hd: "haversine_defined exact_math diamond_graph 5"
    by (simp add: haversine_defined_def node_coords_def diamond_graph_def)
  have un: "\<not> reachable diamond_graph 1 5" using diamond_reach [of 5] by auto
  from unreachable_target [OF s e wf hd un, of "''time''"] diamond_unreachable s e wf hd un
  show ?thesis by simp
qed

section \<open>Parallel edges\<close>

text \<open>
  Claim C1, as the specification states it, fails: between two nodes joined by a key-0
  edge of time 10 and a key-1 edge of time 3, the minimum cost is 3 and the search
  returns the cost 10.
\<close>

theorem parallel_edge_counterexample:
  "spec_min_cost_edge parallel_graph 1 2 ''time'' = Some 3
   \<and> astar_pathfinding exact_math parallel_graph 1 2 ''time'' =
       Some (Inr (Some [1, 2], Finite 10, [1, 2], [(1, 2)]))
   \<and> astar_pathfinding exact_math parallel_graph 1 2 ''time'' \<noteq>
       Some (Inr (Some [1, 2], Finite 3, [1, 2], [(1, 2)]))"
  by (simp add: parallel_time)
     (simp add: spec_min_cost_edge_def parallel_graph_def edge_cost_def dict_get_def
        mk_edge_def)

text \<open>
  Claim C1, amended. Whatever parallel edges connect a node pair, the search relaxes the
  neighbour with the edge stored under key 0. Every result of \<open>astar_pathfinding\<close> (a path
  with its cost and traces, an exception, or no return) stays the same when the attributes
  of the edges stored under other keys are replaced by anything else; and on a graph where
  every connected pair has an edge under key 0, it is the result on the graph from which
  all the edges of another key are removed.
\<close>

theorem parallel_edge_key0:
  "astar_pathfinding fm G start_node end_node weight =
     astar_pathfinding fm (map_other_keys f G) start_node end_node weight
   \<and> (key0_present G \<longrightarrow>
        astar_pathfinding fm G start_node end_node weight =
          astar_pathfinding fm (key0_only G) start_node end_node weight)"
proof (intro conjI impI)
  show "astar_pathfinding fm G start_node end_node weight =
     astar_pathfinding fm (map_other_keys f G) start_node end_node weight"
    by (rule astar_pathfinding_cong [symmetric])
       (simp_all add: map_other_keys_edge0,
        simp_all add: map_other_keys_def map_adj_coords map_adj_neighbors)
next
  assume "key0_present G"
  then have k: "key0_only G = map_adj (filter (\<lambda>ked. fst ked = 0)) G"
    by (rule key0_only_map_adj)
  show "astar_pathfinding fm G start_node end_node weight =
          astar_pathfinding fm (key0_only G) start_node end_node weight"
    unfolding k
    by (rule astar_pathfinding_cong [symmetric])
       (simp_all add: map_adj_coords map_adj_neighbors filter_key0_edge0)
qed

theorem parallel_edge_key0_witness:
  "key0_present parallel_graph
   \<and> key0_only parallel_graph =
       [(1, \<lparr>lat = 0, lon = 0, adj = [(2, [(0, mk_edge 100 10 10)])]\<rparr>),
        (2, \<lparr>lat = 0, lon = 0, adj = []\<rparr>)]
   \<and> astar_pathfinding exact_math (key0_only parallel_graph) 1 2 ''time'' =
       Some (Inr (Some [1, 2], Finite 10, [1, 2], [(1, 2)]))
   \<and> astar_pathfinding exact_math (map_other_keys (\<lambda>ed. mk_edge 100 1 1) parallel_graph) 1 2
         ''time'' =
       Some (Inr (Some [1, 2], Finite 10, [1, 2], [(1, 2)]))"
proof -
  have kp: "key0_present parallel_graph" by (simp add: key0_present_def parallel_graph_def)
  have ko: "key0_only parallel_graph =
       [(1, \<lparr>lat = 0, lon = 0, adj = [(2, [(0, mk_edge 100 10 10)])]\<rparr>),
        (2, \<lparr>lat = 0, lon = 0, adj = []\<rparr>)]"
    by (simp add: key0_only_def parallel_graph_def)
  note t = parallel_edge_key0 [of exact_math parallel_graph 1 2 "''time''"
      "\<lambda>ed. mk_edge 100 1 1"]
  from t have a: "astar_pathfinding exact_math parallel_graph 1 2 ''time'' =
      astar_pathfinding exact_math (map_other_keys (\<lambda>ed. mk_edge 100 1 1) parallel_graph) 1 2
        ''time''"
    by (rule conjunct1)
  from t kp have b: "astar_pathfinding exact_math parallel_graph 1 2 ''time'' =
      astar_pathfinding exact_math (key0_only parallel_graph) 1 2 ''time''"
    by blast
  have "astar_pathfinding exact_math (key0_only parallel_graph) 1 2 ''time'' =
       Some (Inr (Some [1, 2], Finite 10, [1, 2], [(1, 2)]))"
    by (simp only: b [symmetric] parallel_time)
  moreover have
    "astar_pathfinding exact_math (map_other_keys (\<lambda>ed. mk_edge 100 1 1) parallel_graph) 1 2
         ''time'' =
       Some (Inr (Some [1, 2], Finite 10, [1, 2], [(1, 2)]))"
    by (simp only: a [symmetric] parallel_time)
  ultimately show ?thesis using kp ko by simp
qed

text \<open>
  Without an edge under key 0 the two graphs differ: removing the key-1 edge of
  \<open>key1_graph\<close> leaves node 1 without neighbour, and the search that raised \<open>KeyError\<close>
  returns without a path.
\<close>

lemma key0_only_key1_graph:
  "\<not> key0_present key1_graph
   \<and> neighbors (key0_only key1_graph) 1 = Inr []
   \<and> astar_pathfinding exact_math (key0_only key1_graph) 1 3 ''time'' =
       Some (Inr (None, Infinity, [1], []))"
  by (simp add: key0_present_def key0_only_def key1_graph_def eval_defs)

section \<open>Missing edge attributes\<close>

text \<open>
  Claim C8, as the specification states it, fails in its last part: the fallback is not
  converted to the units of the criterion. An edge of 1000 m without a \<open>time\<close> attribute
  costs 1000 under the criterion \<open>time\<close>; the weighting scheme gives that road
  (residential) 180 seconds, and gives 1000 seconds to 1000 m on no kind of road.
\<close>

theorem missing_attribute_counterexample:
  "astar_pathfinding exact_math untimed_graph 1 2 ''time'' =
     Some (Inr (Some [1, 2], Finite 1000, [1, 2], [(1, 2)]))
   \<and> time_seconds 1000 ''residential'' = 180
   \<and> (\<forall>hw. time_seconds 1000 hw \<noteq> 1000)"
proof -
  have "time_seconds 1000 hw \<noteq> 1000" for hw
    using road_speed_values [of hw] by (auto simp: time_seconds_def)
  moreover have "time_seconds 1000 ''residential'' = 180"
    by (simp add: time_seconds_def road_speed_def speed_limits_kmh_def dict_get_def)
  ultimately show ?thesis using untimed_time by simp
qed

text \<open>
  Claim C8, amended. An edge that lacks the attribute of the active criterion does not
  make the search fail: its cost is the number held by its \<open>length\<close> attribute, or 100
  when it has none, taken as it is, with no conversion of units. Every result of
  \<open>astar_pathfinding\<close> is its result on the graph where each such edge carries that
  number as the attribute.
\<close>

theorem missing_attribute_fallback:
  "(attrs ed weight = None \<longrightarrow>
      edge_cost ed weight = (case attrs ed ''length'' of None \<Rightarrow> 100 | Some l \<Rightarrow> l))
   \<and> astar_pathfinding fm G start_node end_node weight =
       astar_pathfinding fm (with_default_cost weight G) start_node end_node weight"
proof -
  have "astar_pathfinding fm (with_default_cost weight G) start_node end_node weight =
      astar_pathfinding fm G start_node end_node weight"
    unfolding with_default_cost_def
    by (rule astar_pathfinding_cong)
       (simp_all add: map_adj_coords map_adj_neighbors
          with_default_cost_edge0 [unfolded with_default_cost_def] edge_cost_fill
          sum.map_comp comp_def id_def)
  then show ?thesis by (simp add: edge_cost_def dict_get_def)
qed

theorem missing_attribute_fallback_witness:
  "attrs \<lparr>attrs = [''length'' \<mapsto> 1000], highway = Some (HwStr ''residential''),
          road_type = None\<rparr> ''time'' = None
   \<and> edge_cost \<lparr>attrs = [''length'' \<mapsto> 1000], highway = Some (HwStr ''residential''),
          road_type = None\<rparr> ''time'' = 1000
   \<and> edge_cost \<lparr>attrs = Map.empty, highway = None, road_type = None\<rparr> ''pollution'' = 100
   \<and> astar_pathfinding exact_math (with_default_cost ''time'' untimed_graph) 1 2 ''time'' =
       Some (Inr (Some [1, 2], Finite 1000, [1, 2], [(1, 2)]))"
  using missing_attribute_fallback
    [of "\<lparr>attrs = [''length'' \<mapsto> 1000], highway = Some (HwStr ''residential''),
          road_type = None\<rparr>" "''time''" exact_math untimed_graph 1 2]
    missing_attribute_fallback
    [of "\<lparr>attrs = Map.empty, highway = None, road_type = None\<rparr>" "''pollution''"
      exact_math untimed_graph 1 2]
    untimed_time
  by simp

section \<open>The dual-route orchestrator answers with both routes or with none\<close>

text \<open>
  Claim C9, as the specification states it, fails: a search that finds no path does not
  always lead to the not-found answer. On \<open>mixed_graph\<close>, from node 1 to node 4, the search
  by time returns without a path, the search by pollution raises \<open>KeyError\<close> (it expands
  node 3 before node 2 is closed and reads \<open>G[3][2][0]\<close>), and \<open>get_route\<close>, which catches
  no exception of the searches, ends with that exception instead of the 404 answer.
\<close>

theorem no_partial_result_counterexample:
  "astar_pathfinding exact_math mixed_graph 1 4 ''time'' =
     Some (Inr (None, Infinity, [1, 2, 3], [(1, 2), (1, 3)]))
   \<and> astar_pathfinding exact_math mixed_graph 1 4 ''pollution'' = Some (Inl KeyError)
   \<and> get_route exact_math nearest_by_lon mixed_graph (Some 0) (Some 0) (Some 0) (Some 1) =
       Some (Inl KeyError)
   \<and> get_route exact_math nearest_by_lon mixed_graph (Some 0) (Some 0) (Some 0) (Some 1) \<noteq>
       Some (Inr No_route_found)"
  using mixed_time mixed_pollution mixed_get_route by simp

text \<open>
  Claim C9, amended. For every request to \<open>get_route\<close>: when both searches return and
  either of them returns no path, the answer is the not-found condition (404); an
  exception raised by either search leaves \<open>get_route\<close> as that exception; and whenever
  the answer is a response with routes, both searches returned a path and the response
  holds the coordinates of both, so no response joins a route with a null route.
\<close>

theorem no_partial_result:
  "(astar_pathfinding fm G (nearest G slon slat) (nearest G elon elat) ''time'' =
        Some (Inr (tr, tc, tx, te)) \<longrightarrow>
    astar_pathfinding fm G (nearest G slon slat) (nearest G elon elat) ''pollution'' =
        Some (Inr (pr, pc, px, pe)) \<longrightarrow>
    tr = None \<or> pr = None \<longrightarrow>
    get_route fm nearest G (Some slat) (Some slon) (Some elat) (Some elon) =
      Some (Inr No_route_found))
   \<and> (astar_pathfinding fm G (nearest G slon slat) (nearest G elon elat) ''time'' =
        Some (Inl err) \<longrightarrow>
      get_route fm nearest G (Some slat) (Some slon) (Some elat) (Some elon) = Some (Inl err))
   \<and> (astar_pathfinding fm G (nearest G slon slat) (nearest G elon elat) ''time'' =
        Some (Inr (tr, tc, tx, te)) \<longrightarrow>
      astar_pathfinding fm G (nearest G slon slat) (nearest G elon elat) ''pollution'' =
        Some (Inl err) \<longrightarrow>
      get_route fm nearest G (Some slat) (Some slon) (Some elat) (Some elon) = Some (Inl err))
   \<and> (get_route fm nearest G start_lat start_lon end_lat end_lon = Some (Inr (Routes tp pp)) \<longrightarrow>
        (\<exists>slat slon elat elon tr tc tx te pr pc px pe.
           start_lat = Some slat \<and> start_lon = Some slon \<and> end_lat = Some elat \<and>
           end_lon = Some elon \<and>
           astar_pathfinding fm G (nearest G slon slat) (nearest G elon elat) ''time'' =
             Some (Inr (Some tr, tc, tx, te)) \<and>
           astar_pathfinding fm G (nearest G slon slat) (nearest G elon elat) ''pollution'' =
             Some (Inr (Some pr, pc, px, pe)) \<and>
           path_to_coords G tr = Inr (payload_path tp) \<and>
           path_to_coords G pr = Inr (payload_path pp)))"
  using get_route_not_found [of fm G nearest slon slat elon elat tr tc tx te pr pc px pe]
    get_route_routes [of fm nearest G start_lat start_lon end_lat end_lon tp pp]
    get_route_raises_time [of fm G nearest slon slat elon elat err]
    get_route_raises_pollution [of fm G nearest slon slat elon elat tr tc tx te err]
  by blast

theorem no_partial_result_witness:
  "astar_pathfinding exact_math diamond_graph 1 5 ''time'' =
     Some (Inr (None, Infinity, [1, 3, 2, 4], [(1, 2), (1, 3), (3, 2), (2, 4)]))
   \<and> get_route exact_math nearest_by_lon diamond_graph (Some 0) (Some 0) (Some 0) (Some 2) =
       Some (Inr No_route_found)
   \<and> astar_pathfinding exact_math mixed_graph 1 4 ''pollution'' = Some (Inl KeyError)
   \<and> get_route exact_math nearest_by_lon mixed_graph (Some 0) (Some 0) (Some 0) (Some 1) =
       Some (Inl KeyError)
   \<and> (\<exists>tp pp. get_route exact_math nearest_by_lon diamond_graph (Some 0) (Some 0) (Some 0) (Some 1) =
                 Some (Inr (Routes tp pp))
        \<and> payload_path tp = [(0, 0), (0, 0), (0, 0), (0, 0)]
        \<and> payload_path pp = [(0, 0), (0, 0), (0, 0), (0, 0)])"
proof -
  have n: "nearest_by_lon G 0 0 = 1" "nearest_by_lon G 2 0 = 5" "nearest_by_lon G 1 0 = 4" for G
    by (simp_all add: nearest_by_lon_def)
  have a: "get_route exact_math nearest_by_lon diamond_graph (Some 0) (Some 0) (Some 0) (Some 2) =
       Some (Inr No_route_found)"
    using no_partial_result [where fm = exact_math and G = diamond_graph
        and nearest = nearest_by_lon and slon = 0 and slat = 0 and elon = 2 and elat = 0
        and tr = None and tc = Infinity and tx = "[1, 3, 2, 4]"
        and te = "[(1, 2), (1, 3), (3, 2), (2, 4)]" and pr = None and pc = Infinity
        and px = "[1, 3, 2, 4]" and pe = "[(1, 2), (1, 3), (3, 2), (2, 4)]"]
      diamond_unreachable diamond_unreachable_pollution n
    by simp
  have m: "get_route exact_math nearest_by_lon mixed_graph (Some 0) (Some 0) (Some 0) (Some 1) =
       Some (Inl KeyError)"
    using no_partial_result [where fm = exact_math and G = mixed_graph
        and nearest = nearest_by_lon and slon = 0 and slat = 0 and elon = 1 and elat = 0
        and tr = None and tc = Infinity and tx = "[1, 2, 3]" and te = "[(1, 2), (1, 3)]"
        and err = KeyError]
      mixed_time mixed_pollution n
    by simp
  from diamond_get_route obtain tp pp where
    r: "get_route exact_math nearest_by_lon diamond_graph (Some 0) (Some 0) (Some 0) (Some 1) =
            Some (Inr (Routes tp pp))" by blast
  from no_partial_result [where fm = exact_math and G = diamond_graph
      and nearest = nearest_by_lon and start_lat = "Some 0" and start_lon = "Some 0"
      and end_lat = "Some 0" and end_lon = "Some 1" and tp = tp and pp = pp,
      THEN conjunct2, THEN conjunct2, THEN conjunct2, rule_format, OF r]
  obtain slat slon elat elon tr tc tx te pr pc px pe where
    c: "Some (0 :: real) = Some slat" "Some (0 :: real) = Some slon"
      "Some (0 :: real) = Some elat" "Some (1 :: real) = Some elon" and
    t: "astar_pathfinding exact_math diamond_graph (nearest_by_lon diamond_graph slon slat)
          (nearest_by_lon diamond_graph elon elat) ''time'' = Some (Inr (Some tr, tc, tx, te))"
      "astar_pathfinding exact_math diamond_graph (nearest_by_lon diamond_graph slon slat)
          (nearest_by_lon diamond_graph elon elat) ''pollution'' =
         Some (Inr (Some pr, pc, px, pe))"
      "path_to_coords diamond_graph tr = Inr (payload_path tp)"
      "path_to_coords diamond_graph pr = Inr (payload_path pp)"
    by blast
  from c have "slat = 0" "slon = 0" "elat = 0" "elon = 1" by simp_all
  with t n have
    "astar_pathfinding exact_math diamond_graph 1 4 ''time'' = Some (Inr (Some tr, tc, tx, te))"
    "astar_pathfinding exact_math diamond_graph 1 4 ''pollution'' = Some (Inr (Some pr, pc, px, pe))"
    "path_to_coords diamond_graph tr = Inr (payload_path tp)"
    "path_to_coords diamond_graph pr = Inr (payload_path pp)"
    by simp_all
  note f = this
  from f(1,2) have trp: "tr = [1, 3, 2, 4]" "pr = [1, 3, 2, 4]"
    by (simp_all add: diamond_time diamond_pollution)
  have "path_to_coords diamond_graph [1, 3, 2, 4] = Inr [(0, 0), (0, 0), (0, 0), (0, 0)]"
    by (simp add: path_to_coords_def node_coords_def diamond_graph_def)
  with f(3,4) trp have "payload_path tp = [(0, 0), (0, 0), (0, 0), (0, 0)]"
    "payload_path pp = [(0, 0), (0, 0), (0, 0), (0, 0)]"
    by simp_all
  with a m r diamond_unreachable mixed_pollution show ?thesis by blast
qed

section \<open>Frontier order and reproducible output\<close>

text \<open>
  Claim C7.  The frontier pops its entries in ascending order of the triple \<open>(f, g, node)\<close>:
  the popped entry has the least \<open>f\<close>, among those the least \<open>g\<close>, among those the least node
  identifier, and popping removes exactly that entry.  Consequently the output of the search
  (path, cost, explored nodes and explored edges) is determined by the graph and the input: it
  is the same for every arrangement of the same entries inside the frontier, so two runs
  cannot differ.
\<close>

theorem frontier_order_deterministic:
  "(heappop h = Inr ((f, g, n), rest) \<longrightarrow>
      (\<forall>f' g' n'. (f', g', n') \<in> set h \<longrightarrow>
         f < f' \<or> (f = f' \<and> (g < g' \<or> (g = g' \<and> n \<le> n'))))
      \<and> mset h = add_mset (f, g, n) (mset rest))
   \<and> (mset h1 = mset h2 \<longrightarrow>
        astar_loop fm G weight s e ec (st\<lparr>open_set := h1\<rparr>)
          = astar_loop fm G weight s e ec (st\<lparr>open_set := h2\<rparr>))"
proof (intro conjI impI allI)
  fix f' g' n'
  assume "heappop h = Inr ((f, g, n), rest)" and "(f', g', n') \<in> set h"
  then have "(f, g, n) \<le> (f', g', n')" by (rule heappop_least)
  then show "f < f' \<or> (f = f' \<and> (g < g' \<or> (g = g' \<and> n \<le> n')))" by auto
next
  assume "heappop h = Inr ((f, g, n), rest)"
  then show "mset h = add_mset (f, g, n) (mset rest)" by (rule heappop_mset)
next
  assume "mset h1 = mset h2"
  then have "bag_eq (st\<lparr>open_set := h1\<rparr>) (st\<lparr>open_set := h2\<rparr>)" by (simp add: bag_eq_def)
  then show "astar_loop fm G weight s e ec (st\<lparr>open_set := h1\<rparr>)
          = astar_loop fm G weight s e ec (st\<lparr>open_set := h2\<rparr>)" by (rule bag_eq_astar_loop)
qed

theorem frontier_order_deterministic_witness:
  "heappop [(10, 10, 2), (3, 3, 3), (3, 2, 7), (3, 2, 5)] =
     Inr ((3, 2, 5), [(10, 10, 2), (3, 3, 3), (3, 2, 7)])
   \<and> mset [(10, 10, 2), (3, 3, 3), (3, 2, 7), (3, 2, 5)] =
       add_mset (3, 2, 5) (mset [(10, 10, 2), (3, 3, 3), (3, 2, 7 :: node)] :: entry multiset)
   \<and> mset (open_set diamond_state) = mset [(3, 3, 3), (10, 10, 2)]
   \<and> astar_loop exact_math diamond_graph ''time'' 1 4 (0, 0) (diamond_state\<lparr>open_set := [(3, 3, 3), (10, 10, 2)]\<rparr>)
       = Some (Inr (Some [1, 3, 2, 4], Finite 6, [1, 3, 2, 4], [(1, 2), (1, 3), (3, 2), (2, 4)]))"
proof -
  have hp: "heappop [(10, 10, 2), (3, 3, 3), (3, 2, 7), (3, 2, 5)] =
     Inr ((3, 2, 5), [(10, 10, 2), (3, 3, 3), (3, 2, 7)])"
    by (simp add: heappop_def)
  have ms: "mset (open_set diamond_state) = mset [(3, 3, 3), (10, 10, 2)]"
    by (simp add: diamond_state_def)
  have run: "astar_loop exact_math diamond_graph ''time'' 1 4 (0, 0) diamond_state
       = Some (Inr (Some [1, 3, 2, 4], Finite 6, [1, 3, 2, 4], [(1, 2), (1, 3), (3, 2), (2, 4)]))"
    by (simp add: diamond_graph_def diamond_state_def eval_defs)
  note t = frontier_order_deterministic [of "[(10, 10, 2), (3, 3, 3), (3, 2, 7), (3, 2, 5)]"
      3 2 5 "[(10, 10, 2), (3, 3, 3), (3, 2, 7)]" "open_set diamond_state"
      "[(3, 3, 3), (10, 10, 2)]" exact_math diamond_graph "''time''" 1 4 "(0, 0)" diamond_state]
  from t hp have "mset [(10, 10, 2), (3, 3, 3), (3, 2, 7), (3, 2, 5)] =
       add_mset (3, 2, 5) (mset [(10, 10, 2), (3, 3, 3), (3, 2, 7 :: node)] :: entry multiset)"
    by blast
  moreover from t ms have "astar_loop exact_math diamond_graph ''time'' 1 4 (0, 0) (diamond_state\<lparr>open_set := open_set diamond_state\<rparr>)
       = astar_loop exact_math diamond_graph ''time'' 1 4 (0, 0) (diamond_state\<lparr>open_set := [(3, 3, 3), (10, 10, 2)]\<rparr>)"
    by blast
  ultimately show ?thesis using hp ms run by simp
qed

section \<open>The heuristic in exact arithmetic\<close>

text \<open>
  The admissibility of the heuristic (claim C2) compares two floating-point results: the
  heuristic \<open>h_dist / MAX_SPEED_MPS\<close>, and a sum of edge weights
  \<open>(length / 1000) / road_speed * 3600\<close> or \<open>length * multiplier * penalty\<close>. On a motorway
  edge whose length is the haversine distance of its endpoints the two are equal in exact
  arithmetic, so which of the two floats is the larger is decided by their rounding, which
  \<open>fmath\<close> leaves open. What follows is the property without rounding: on a network
  weighted by \<open>add_pollution_weights\<close> whose edge lengths are at least the great-circle
  distance between their endpoints, the heuristic of a node is at most the cost of every
  walk from the node to the goal.
\<close>

lemma heuristic_admissible_exact:
  assumes w: "add_pollution_weights G = Inr G'"
    and lc: "lengths_cover G'"
    and crit: "weight = ''time'' \<or> weight = ''pollution''"
    and goal: "node_coords G' goal = Inr end_coords"
    and wk: "walk G' n es goal"
  shows "\<exists>h. h_score exact_math G' weight end_coords n = Inr h \<and> h \<le> walk_cost weight es"
  using wk
proof (induction es arbitrary: n)
  case Nil
  then have "n = goal" by simp
  then show ?case using goal by (simp add: h_score_def walk_cost_def)
next
  case (Cons e rest)
  from Cons.prems have n: "fst e = n" and e: "e \<in> set (graph_edges G')"
    and r: "walk G' (fst (snd e)) rest goal" by simp_all
  obtain v k ed' where ev: "e = (n, v, k, ed')" using n by (cases e) auto
  define len where "len = dict_get (attrs ed') ''length'' 100"
  from lengths_coverD [OF lc e] obtain cu cv d where
    cu: "node_coords G' n = Inr cu" and cv: "node_coords G' v = Inr cv"
    and d: "haversine_distance exact_math (fst cu) (snd cu) (fst cv) (snd cv) = Inr d"
    and le: "d \<le> len"
    by (auto simp: ev len_def)
  from Cons.IH [OF r] obtain hv where
    hv: "h_score exact_math G' weight end_coords v = Inr hv" "hv \<le> walk_cost weight rest"
    by (auto simp: ev)
  from haversine_exact [of "fst cu" "snd cu" "fst end_coords" "snd end_coords"] obtain dn where
    dn: "haversine_distance exact_math (fst cu) (snd cu) (fst end_coords) (snd end_coords) = Inr dn"
    by blast
  from haversine_exact [of "fst cv" "snd cv" "fst end_coords" "snd end_coords"] obtain dv where
    dv: "haversine_distance exact_math (fst cv) (snd cv) (fst end_coords) (snd end_coords) = Inr dv"
    by blast
  have len0: "0 \<le> len"
    using haversine_exact [of "fst cu" "snd cu" "fst cv" "snd cv"] d le by auto
  from weighted_edge [OF w e [unfolded ev]] obtain ed where "weigh_edge G n v ed = Inr ed'" by blast
  from weigh_edge_cost [OF this] len0 have
    ct: "len / MAX_SPEED_MPS exact_math \<le> edge_cost ed' ''time''"
    and cp: "len \<le> edge_cost ed' ''pollution''"
    by (simp_all add: len_def)
  have tri: "dn \<le> len + dv" using haversine_triangle [OF dn d dv] le by linarith
  have wc: "walk_cost weight (e # rest) = edge_cost ed' weight + walk_cost weight rest"
    by (simp add: walk_cost_def ev)
  from crit show ?case
  proof
    assume t: "weight = ''time''"
    have hn: "h_score exact_math G' weight end_coords n = Inr (dn / MAX_SPEED_MPS exact_math)"
      by (simp add: h_score_def cu dn t)
    have hve: "hv = dv / MAX_SPEED_MPS exact_math" using hv(1) by (simp add: h_score_def cv dv t)
    have "dn / MAX_SPEED_MPS exact_math \<le> (len + dv) / MAX_SPEED_MPS exact_math"
      using tri by (intro divide_right_mono) (simp_all add: MAX_SPEED_MPS_def)
    also have "\<dots> = len / MAX_SPEED_MPS exact_math + hv" by (simp add: hve add_divide_distrib)
    also have "\<dots> \<le> edge_cost ed' weight + walk_cost weight rest"
      using ct hv(2) by (simp add: t)
    finally show ?thesis using hn wc by simp
  next
    assume p: "weight = ''pollution''"
    have hn: "h_score exact_math G' weight end_coords n = Inr dn"
      by (simp add: h_score_def cu dn p)
    have hve: "hv = dv" using hv(1) by (simp add: h_score_def cv dv p)
    have "dn \<le> len + hv" using tri by (simp add: hve)
    also have "\<dots> \<le> edge_cost ed' weight + walk_cost weight rest"
      using cp hv(2) by (simp add: p)
    finally show ?thesis using hn wc by simp
  qed
qed

text \<open>The hypotheses hold of the motorway along a quarter of the equator.\<close>

lemma heuristic_admissible_exact_example:
  "add_pollution_weights quarter_graph = Inr quarter_weighted
   \<and> lengths_cover quarter_weighted
   \<and> node_coords quarter_weighted 2 = Inr (0, 90)
   \<and> walk quarter_weighted 1 [(1, 2, 0, quarter_edge)] 2
   \<and> h_score exact_math quarter_weighted ''time'' (0, 90) 1 =
       Inr (6371000 * (pi / 2) / MAX_SPEED_MPS exact_math)
   \<and> 6371000 * (pi / 2) / MAX_SPEED_MPS exact_math \<le> walk_cost ''time'' [(1, 2, 0, quarter_edge)]
   \<and> walk_cost ''time'' [(1, 2, 0, quarter_edge)] = 573390"
proof -
  have hq: "haversine_distance exact_math 0 0 0 90 = Inr (6371000 * (pi / 2))"
    by (simp add: haversine_arccos cos_angle_def radians_def)
  have w: "add_pollution_weights quarter_graph = Inr quarter_weighted"
    by (simp add: add_pollution_weights_def quarter_graph_def quarter_weighted_def
        quarter_edge_def weigh_edge_def highway_of_def dict_get_def pollution_multiplier_def
        POLLUTION_FACTORS_def time_seconds_def road_speed_def speed_limits_kmh_def
        intersection_penalty_def degree_def)
  have lc: "lengths_cover quarter_weighted"
    using pi_less_4
    by (simp add: lengths_cover_def graph_edges_def quarter_weighted_def quarter_edge_def
        node_coords_def dict_get_def hq)
  have g: "node_coords quarter_weighted 2 = Inr (0, 90)"
    by (simp add: node_coords_def quarter_weighted_def)
  have wk: "walk quarter_weighted 1 [(1, 2, 0, quarter_edge)] 2"
    by (simp add: graph_edges_def quarter_weighted_def)
  have h: "h_score exact_math quarter_weighted ''time'' (0, 90) 1 =
      Inr (6371000 * (pi / 2) / MAX_SPEED_MPS exact_math)"
    by (simp add: h_score_def node_coords_def quarter_weighted_def hq)
  have c: "walk_cost ''time'' [(1, 2, 0, quarter_edge)] = 573390"
    by (simp add: walk_cost_def edge_cost_def quarter_edge_def dict_get_def)
  from heuristic_admissible_exact [OF w lc _ g wk, of "''time''"] h
  have "6371000 * (pi / 2) / MAX_SPEED_MPS exact_math \<le> walk_cost ''time'' [(1, 2, 0, quarter_edge)]"
    by auto
  then show ?thesis using w lc g wk h c by simp
qed

end
